theory Spec2Isabelle
  imports Main
begin

section \<open>Strings as the scripts use them\<close>

text \<open>
  Strings are lists of 8-bit characters. \<open>trim\<close> is \<^verbatim>\<open>String.prototype.trim\<close>
  restricted to the white space and line terminators below code 256; \<open>is_digit\<close> is the
  class \<^verbatim>\<open>\d\<close> of the regular expressions.
\<close>

definition nl :: char where
  "nl = CHR 0x0A"

definition tab :: char where
  "tab = CHR 0x09"

definition is_space :: "char \<Rightarrow> bool" where
  "is_space c = (c \<in> set [CHR 0x09, CHR 0x0A, CHR 0x0B, CHR 0x0C, CHR 0x0D, CHR 0x20, CHR 0xA0])"

definition trim :: "string \<Rightarrow> string" where
  "trim s = rev (dropWhile is_space (rev (dropWhile is_space s)))"

definition is_digit :: "char \<Rightarrow> bool" where
  "is_digit c = (c \<in> set ''0123456789'')"

fun strip_prefix :: "string \<Rightarrow> string \<Rightarrow> string option" where
  "strip_prefix [] s = Some s"
| "strip_prefix (p # ps) [] = None"
| "strip_prefix (p # ps) (c # cs) = (if p = c then strip_prefix ps cs else None)"

text \<open>The decimal numeral of a number, as a template literal prints it.\<close>

fun show_nat :: "nat \<Rightarrow> string" where
  "show_nat n =
     (if n < 10 then [''0123456789'' ! n]
      else show_nat (n div 10) @ [''0123456789'' ! (n mod 10)])"

declare show_nat.simps [simp del]

section \<open>FieldScanner: the complex-field strategy\<close>

text \<open>
  The parsed markup is the DOM the scripts query. A node is an element, of which the walk
  reads whether it holds an end marker (\<^verbatim>\<open>querySelectorAll(FIELD_CHAR_END).length > 0\<close>)
  and the text contents of its \<^verbatim>\<open>w:instrText\<close> descendants, or a node of another kind
  (text, comment), which has neither query method. \<open>nextSibling\<close> and \<open>parentElement\<close>
  are \<open>None\<close> for \<^verbatim>\<open>null\<close>; nothing is assumed about the sibling chain, which may
  be endless. The log keeps the warnings.
\<close>

datatype xml_node = Element bool "string list" | Other

fun has_end :: "xml_node \<Rightarrow> bool" where
  "has_end (Element e ts) = e"
| "has_end Other = False"

fun instr_text :: "xml_node \<Rightarrow> string" where
  "instr_text (Element e ts) = concat ts"
| "instr_text Other = []"

record 'n xml_doc =
  node :: "'n \<Rightarrow> xml_node"
  nextSibling :: "'n \<Rightarrow> 'n option"
  parentElement :: "'n \<Rightarrow> 'n option"

datatype log_entry = ReachedMaximumIterations | ErrorExtractingContent

definition maxIterations :: nat where
  "maxIterations = 1000"

function sibling_walk :: "'n xml_doc \<Rightarrow> 'n option \<Rightarrow> nat \<Rightarrow> string \<Rightarrow> nat \<times> string" where
  "sibling_walk doc nextRun iterationCount instrTextContent =
     (case nextRun of
        None \<Rightarrow> (iterationCount, instrTextContent)
      | Some n \<Rightarrow>
          if iterationCount < maxIterations then
            (if has_end (node doc n) then (Suc iterationCount, instrTextContent)
             else sibling_walk doc (nextSibling doc n) (Suc iterationCount)
                    (instrTextContent @ instr_text (node doc n)))
          else (iterationCount, instrTextContent))"
  by pat_completeness auto
termination
  by (relation "measure (\<lambda>(doc, nextRun, iterationCount, instrTextContent). maxIterations - iterationCount)") auto

declare sibling_walk.simps [simp del]

definition extractComplexFieldContent :: "'n xml_doc \<Rightarrow> 'n \<Rightarrow> log_entry list \<times> string" where
  "extractComplexFieldContent doc fieldStart =
     (case parentElement doc fieldStart of
        None \<Rightarrow> ([ErrorExtractingContent], [])
      | Some p \<Rightarrow>
          (let (iterationCount, instrTextContent) = sibling_walk doc (nextSibling doc p) 0 []
           in (if maxIterations \<le> iterationCount then [ReachedMaximumIterations] else [],
               trim instrTextContent)))"

definition extractOfficeOpenXmlFields :: "'n xml_doc \<Rightarrow> 'n list \<Rightarrow> string list \<times> log_entry list" where
  "extractOfficeOpenXmlFields doc complexFieldStarts =
     foldl (\<lambda>(fields, log) fieldStart.
              (let (warnings, fieldContent) = extractComplexFieldContent doc fieldStart
               in (if fieldContent \<noteq> [] \<and> trim fieldContent \<noteq> [] then fields @ [fieldContent] else fields,
                   log @ warnings)))
       ([], []) complexFieldStarts"

text \<open>
  For the statements: the first \<open>k\<close> nodes of a sibling chain, and those of them that the
  walk passes before it meets an end marker.
\<close>

fun siblings :: "'n xml_doc \<Rightarrow> 'n option \<Rightarrow> nat \<Rightarrow> 'n list" where
  "siblings doc None k = []"
| "siblings doc (Some n) 0 = []"
| "siblings doc (Some n) (Suc k) = n # siblings doc (nextSibling doc n) k"

definition walked :: "'n xml_doc \<Rightarrow> 'n option \<Rightarrow> nat \<Rightarrow> 'n list" where
  "walked doc start k =
     takeWhile (\<lambda>n. case node doc n of Element e ts \<Rightarrow> \<not> e | Other \<Rightarrow> True) (siblings doc start k)"

text \<open>A sibling chain without an end marker that never ends.\<close>

definition endless :: "nat xml_doc" where
  "endless = \<lparr>node = (\<lambda>n. if n = 0 then Other else Element False [''a '']),
              nextSibling = (\<lambda>n. Some (Suc n)), parentElement = (\<lambda>n. Some 0)\<rparr>"

text \<open>
  A document with four begin markers. The run of marker 100 is followed by two runs with
  instruction text, a text node between them, the run of the end marker and a run after it;
  the run of marker 101 is followed by a run of blanks and the end marker; the run of marker
  102 has no sibling; marker 103 has no parent.
\<close>

definition two_fields :: "nat xml_doc" where
  "two_fields =
     \<lparr>node = (\<lambda>n. if n = 1 then Element False [''ADDIN ZOTERO_ITEM '']
                  else if n = 2 then Other
                  else if n = 3 then Element False [''CSL_'', ''CITATION {}  '']
                  else if n = 4 then Element True [''END'']
                  else if n = 5 then Element False [''after the end'']
                  else if n = 11 then Element False [''   '']
                  else if n = 12 then Element True []
                  else Element False []),
      nextSibling = (\<lambda>n. if n \<in> set [0, 1, 2, 3, 4, 10, 11] then Some (Suc n) else None),
      parentElement = (\<lambda>n. if n = 100 then Some 0 else if n = 101 then Some 10
                            else if n = 102 then Some 20 else None)\<rparr>"

section \<open>Bibliographic records\<close>

text \<open>
  A record of the citation payload schema: title, author list and note are the fields the
  scripts read; \<open>other\<close> holds the remaining properties. \<open>None\<close> is an absent property.
\<close>

record csl_name =
  family :: "string option"
  given :: "string option"

record csl_item =
  title :: "string option"
  author :: "csl_name list option"
  note_field :: "string option"
  other :: "(string \<times> string) list"

subsection \<open>addCiteCountToItem\<close>

text \<open>
  \<^verbatim>\<open>if (!item.hasOwnProperty('note')) item.note = '';\<close>
  \<^verbatim>\<open>item.note = item.note ? `${countInfo}\n${item.note}` : countInfo;\<close>
\<close>

definition addCiteCountToItem :: "csl_item \<Rightarrow> nat \<Rightarrow> csl_item" where
  "addCiteCountToItem item count =
     (let countInfo = ''Times cited: '' @ show_nat count;
          old = (case note_field item of None \<Rightarrow> [] | Some n \<Rightarrow> n)
      in item\<lparr>note_field := Some (if old \<noteq> [] then countInfo @ [nl] @ old else countInfo)\<rparr>)"

subsection \<open>cleanCitations\<close>

text \<open>
  One match of \<^verbatim>\<open>/Times cited: \d+\n/\<close> at the head of a string: the text after
  the match. The digits are taken greedily and a line feed has to follow them.
\<close>

definition match_count_line :: "string \<Rightarrow> string option" where
  "match_count_line s =
     (case strip_prefix ''Times cited: '' s of
        None \<Rightarrow> None
      | Some r \<Rightarrow>
          (case dropWhile is_digit r of
             [] \<Rightarrow> None
           | c # rest \<Rightarrow> if takeWhile is_digit r \<noteq> [] \<and> c = nl then Some rest else None))"

lemma strip_prefix_length:
  "strip_prefix p s = Some r \<Longrightarrow> length r + length p = length s"
  by (induction p s rule: strip_prefix.induct) (auto split: if_splits)

lemma match_count_line_shorter:
  "match_count_line s = Some r \<Longrightarrow> length r < length s"
proof -
  assume m: "match_count_line s = Some r"
  then obtain q where q: "strip_prefix ''Times cited: '' s = Some q"
    by (auto simp: match_count_line_def split: option.splits)
  with m obtain c where c: "dropWhile is_digit q = c # r"
    by (auto simp: match_count_line_def split: list.splits if_splits)
  have "length (dropWhile is_digit q) \<le> length q"
    by (rule length_dropWhile_le)
  with c have "length r < length q" by simp
  with strip_prefix_length [OF q] show ?thesis by simp
qed

text \<open>\<^verbatim>\<open>note.replace(/Times cited: \d+\n/g, '')\<close>: every match removed, left to right.\<close>

function remove_count_lines :: "string \<Rightarrow> string" where
  "remove_count_lines [] = []"
| "remove_count_lines (c # cs) =
     (case match_count_line (c # cs) of
        Some rest \<Rightarrow> remove_count_lines rest
      | None \<Rightarrow> c # remove_count_lines cs)"
  by pat_completeness auto
termination
  by (relation "measure length") (auto dest: match_count_line_shorter)

declare remove_count_lines.simps [simp del]

definition cleanCitation :: "csl_item \<Rightarrow> csl_item" where
  "cleanCitation citation =
     (case note_field citation of
        None \<Rightarrow> citation
      | Some n \<Rightarrow>
          if n = [] then citation
          else (let n' = remove_count_lines n
                in if trim n' = [] then citation\<lparr>note_field := None\<rparr>
                   else citation\<lparr>note_field := Some n'\<rparr>))"

definition cleanCitations :: "csl_item list \<Rightarrow> csl_item list" where
  "cleanCitations citations = map cleanCitation citations"

section \<open>CitationFieldParser\<close>

text \<open>
  Objects live in a store: an address is an index into it, and an entry holds the address
  of its \<^verbatim>\<open>itemData\<close> object, so that two references to one object see each other's
  writes. \<open>None\<close> is an absent (or \<^verbatim>\<open>null\<close>) property.

  \<^verbatim>\<open>JSON.parse\<close> is a parameter. Its result is the parsed value as \<open>parseField\<close>
  inspects it: \<open>None\<close> when it throws; \<open>NotObject\<close> for a value that is falsy or not of type
  object; \<open>Object None\<close> for an object without a \<^verbatim>\<open>citationItems\<close> array; otherwise the
  items, \<open>None\<close> for an item that is not an object. The \<^verbatim>\<open>itemData\<close> object of an item
  enters the store when its entry is pushed.
\<close>

type_synonym addr = nat

type_synonym store = "csl_item list"

record payload_item =
  p_uris :: "string list option"
  p_itemData :: "csl_item option"

datatype payload = NotObject | Object "payload_item option list option"

record citation =
  c_uris :: "string list option"
  c_itemData :: "addr option"
  c_fieldIndex :: nat
  c_citeIndex :: nat
  c_originalField :: string

text \<open>
  \<^verbatim>\<open>/^(ADDIN )?(ZOTERO_ITEM )?CSL_CITATION/\<close>: the text after the match,
  \<open>None\<close> when the field does not match.
\<close>

datatype js_error = SyntaxError | InvalidFieldObjectStructure

definition strip_optional :: "string \<Rightarrow> string \<Rightarrow> string" where
  "strip_optional p s = (case strip_prefix p s of Some r \<Rightarrow> r | None \<Rightarrow> s)"

definition cslFieldPrefix :: "string \<Rightarrow> string option" where
  "cslFieldPrefix field =
     strip_prefix ''CSL_CITATION'' (strip_optional ''ZOTERO_ITEM '' (strip_optional ''ADDIN '' field))"

text \<open>
  \<^verbatim>\<open>cleanedField.replace(/(\{.+\}) [0-9A-Za-z]+$/, '$1')\<close>: a final token of letters
  and digits after \<open>} \<close> is dropped when an opening brace stands on the same line, at
  least one character before the closing one.
\<close>

definition is_alnum :: "char \<Rightarrow> bool" where
  "is_alnum c =
     (c \<in> set ''0123456789ABCDEFGHIJKLMNOPQRSTUVWXYZabcdefghijklmnopqrstuvwxyz'')"

definition is_line_terminator :: "char \<Rightarrow> bool" where
  "is_line_terminator c = (c = CHR 0x0A \<or> c = CHR 0x0D)"

definition strip_hash :: "string \<Rightarrow> string" where
  "strip_hash s =
     (case dropWhile is_alnum (rev s) of
        sp # br # inner \<Rightarrow>
          if takeWhile is_alnum (rev s) \<noteq> [] \<and> sp = CHR '' '' \<and> br = CHR ''}''
             \<and> CHR ''{'' \<in> set (tl (takeWhile (\<lambda>c. \<not> is_line_terminator c) inner))
          then rev (br # inner) else s
      | _ \<Rightarrow> s)"

text \<open>
  \<^verbatim>\<open>citations.push({...cite, _fieldIndex, _citeIndex, _originalField})\<close>: the entry shares
  the \<^verbatim>\<open>itemData\<close> object of the parsed item. Items that are not objects are skipped,
  and count in the index.
\<close>

definition alloc_itemData :: "store \<Rightarrow> csl_item option \<Rightarrow> addr option \<times> store" where
  "alloc_itemData st itemData =
     (case itemData of
        None \<Rightarrow> (None, st)
      | Some obj \<Rightarrow>
          (Some (length st), st @ [obj]))"

fun push_items :: "store \<Rightarrow> string \<Rightarrow> nat \<Rightarrow> nat \<Rightarrow> payload_item option list \<Rightarrow> citation list \<times> store" where
  "push_items st field fieldIndex citeIndex [] = ([], st)"
| "push_items st field fieldIndex citeIndex (None # items) =
     push_items st field fieldIndex (Suc citeIndex) items"
| "push_items st field fieldIndex citeIndex (Some cite # items) =
     (let (ref, st') = alloc_itemData st (p_itemData cite);
          (citations, st'') = push_items st' field fieldIndex (Suc citeIndex) items
      in (\<lparr>c_uris = p_uris cite, c_itemData = ref, c_fieldIndex = fieldIndex,
            c_citeIndex = citeIndex, c_originalField = field\<rparr> # citations, st''))"

text \<open>
  The body of the \<^verbatim>\<open>try\<close> block of \<open>parseField\<close>, with what it throws as a value, and
  \<open>parseField\<close> with its \<^verbatim>\<open>catch\<close>, which returns the (still empty) list.
\<close>

definition parseField_try ::
  "(string \<Rightarrow> payload option) \<Rightarrow> store \<Rightarrow> string \<Rightarrow> nat \<Rightarrow> js_error + citation list \<times> store" where
  "parseField_try JSON_parse st field fieldIndex =
     (case cslFieldPrefix field of
        None \<Rightarrow> Inr ([], st)
      | Some rest \<Rightarrow>
          (let cleanedField = strip_hash (trim rest)
           in if cleanedField = [] then Inr ([], st)
              else (case JSON_parse cleanedField of
                      None \<Rightarrow> Inl SyntaxError
                    | Some NotObject \<Rightarrow> Inl InvalidFieldObjectStructure
                    | Some (Object None) \<Rightarrow> Inr ([], st)
                    | Some (Object (Some citationItems)) \<Rightarrow>
                        Inr (push_items st field fieldIndex 0 citationItems))))"

definition parseField ::
  "(string \<Rightarrow> payload option) \<Rightarrow> store \<Rightarrow> string \<Rightarrow> nat \<Rightarrow> citation list \<times> store" where
  "parseField JSON_parse st field fieldIndex =
     (case parseField_try JSON_parse st field fieldIndex of
        Inl error \<Rightarrow> ([], st)
      | Inr result \<Rightarrow> result)"

fun parseFields_from ::
  "(string \<Rightarrow> payload option) \<Rightarrow> store \<Rightarrow> nat \<Rightarrow> string list \<Rightarrow> citation list \<times> store" where
  "parseFields_from JSON_parse st index [] = ([], st)"
| "parseFields_from JSON_parse st index (field # remaining) =
     (let (citations, st') = parseField JSON_parse st field index;
          (allCitations, st'') = parseFields_from JSON_parse st' (Suc index) remaining
      in (citations @ allCitations, st''))"

definition parseFields :: "(string \<Rightarrow> payload option) \<Rightarrow> store \<Rightarrow> string list \<Rightarrow> citation list \<times> store" where
  "parseFields JSON_parse st fieldList = parseFields_from JSON_parse st 0 fieldList"

text \<open>
  A field the parser cannot use: no recognized prefix, or a payload that is not JSON, not an
  object, or an object without a \<^verbatim>\<open>citationItems\<close> array.
\<close>

definition unparsable :: "(string \<Rightarrow> payload option) \<Rightarrow> string \<Rightarrow> bool" where
  "unparsable JSON_parse field =
     (case cslFieldPrefix field of
        None \<Rightarrow> True
      | Some rest \<Rightarrow>
          JSON_parse (strip_hash (trim rest)) \<in> set [None, Some NotObject, Some (Object None)])"

text \<open>A parser that knows two payloads, for the examples.\<close>

definition sample_parse :: "string \<Rightarrow> payload option" where
  \<open>sample_parse s =
     (if s = ''{"citationItems":[{"uris":["u1"]}]}''
      then Some (Object (Some [Some \<lparr>p_uris = Some [''u1''], p_itemData = None\<rparr>]))
      else if s = ''{"properties":{}}'' then Some (Object None)
      else None)\<close>

section \<open>DeduplicationEngine\<close>

text \<open>
  The working array of \<open>deduplicateCitations\<close>. Its elements are objects of their own, so a
  position of the array stands for the reference to its element; \<open>item\<close> is the reference
  to the entry's \<^verbatim>\<open>itemData\<close> object, shared with the entry, and \<open>uris\<close> is a copy of
  the entry's list. \<open>indices\<close> is \<open>None\<close> until \<open>performDeduplication\<close> sets it.
\<close>

record dedup_entry =
  item :: "addr option"
  uris :: "string list"
  count :: nat
  index :: nat
  indices :: "nat list option"
  originalCite :: citation

record dedup_result =
  r_itemData :: "addr option"
  r_uris :: "string list"
  r_count :: nat
  r_indices :: "nat list"

text \<open>
  \<^verbatim>\<open>citations.map((cite, index) => ({item: ..., uris: ..., count: 1, index, originalCite}))\<close>
\<close>

definition deduplicationArray :: "citation list \<Rightarrow> dedup_entry list" where
  "deduplicationArray citations =
     map (\<lambda>(cite, i).
            \<lparr>item = c_itemData cite,
             uris = (case c_uris cite of Some us \<Rightarrow> us | None \<Rightarrow> []),
             count = 1, index = i, indices = None, originalCite = cite\<rparr>)
       (zip citations [0..<length citations])"

subsection \<open>normalizeUris\<close>

text \<open>
  One step of the \<^verbatim>\<open>forEach\<close> over the matching items: the identifiers of the item at
  position \<open>k\<close> that entry \<open>i\<close> does not have yet are pushed onto the list of entry \<open>i\<close>.
  The item is read from the array as it is at that moment, so the entry itself (\<open>k = i\<close>)
  contributes nothing. \<open>add_matching\<close> is the body of the loop over \<open>j\<close>: the matching items
  are selected before the first push.
\<close>

definition absorb :: "string list \<Rightarrow> string list \<Rightarrow> string list" where
  "absorb current matching = current @ filter (\<lambda>matchUri. matchUri \<notin> set current) matching"

definition add_uris :: "dedup_entry list \<Rightarrow> nat \<Rightarrow> nat \<Rightarrow> dedup_entry list" where
  "add_uris arr i k = arr[i := (arr ! i)\<lparr>uris := absorb (uris (arr ! i)) (uris (arr ! k))\<rparr>]"

definition add_matching :: "dedup_entry list \<Rightarrow> nat \<Rightarrow> string \<Rightarrow> dedup_entry list" where
  "add_matching arr i uri =
     foldl (\<lambda>a k. add_uris a i k) arr (filter (\<lambda>k. uri \<in> set (uris (arr ! k))) [0..<length arr])"

text \<open>
  The loop over \<open>j\<close> runs while \<open>j\<close> is below the length of a list that it extends itself.
  It ends because the list takes its identifiers from those of the array: the measure is the
  number of identifiers of the array that entry \<open>i\<close> lacks, then the distance of \<open>j\<close> to the
  end of the list.
\<close>

definition all_uris :: "dedup_entry list \<Rightarrow> string set" where
  "all_uris arr = (\<Union>m \<in> {..<length arr}. set (uris (arr ! m)))"

lemma absorb_set [simp]: "set (absorb c m) = set c \<union> set m"
  by (auto simp: absorb_def)

lemma absorb_grows: "absorb c m = c \<or> set c \<subset> set (absorb c m)"
proof (cases "filter (\<lambda>x. x \<notin> set c) m = []")
  case True
  then show ?thesis by (simp add: absorb_def)
next
  case False
  then obtain x where "x \<in> set (filter (\<lambda>x. x \<notin> set c) m)"
    by (cases "filter (\<lambda>x. x \<notin> set c) m") auto
  then have "x \<in> set m" "x \<notin> set c" by auto
  then show ?thesis by auto
qed

lemma add_uris_length [simp]: "length (add_uris arr i k) = length arr"
  by (simp add: add_uris_def)

lemma add_uris_other: "m \<noteq> i \<Longrightarrow> add_uris arr i k ! m = arr ! m"
  by (simp add: add_uris_def)

lemma add_uris_at:
  "i < length arr \<Longrightarrow> add_uris arr i k ! i = (arr ! i)\<lparr>uris := absorb (uris (arr ! i)) (uris (arr ! k))\<rparr>"
  by (simp add: add_uris_def)

lemma all_uris_add_uris:
  assumes "i < length arr" "k < length arr"
  shows "all_uris (add_uris arr i k) = all_uris arr"
  using assms unfolding all_uris_def
  by (auto simp: add_uris_def nth_list_update split: if_splits)

text \<open>What a run of forEach steps does to the array.\<close>

lemma foldl_add_uris:
  assumes "i < length arr" "\<forall>k \<in> set ks. k < length arr"
  shows "length (foldl (\<lambda>a k. add_uris a i k) arr ks) = length arr
       \<and> (\<forall>m. m \<noteq> i \<longrightarrow> foldl (\<lambda>a k. add_uris a i k) arr ks ! m = arr ! m)
       \<and> all_uris (foldl (\<lambda>a k. add_uris a i k) arr ks) = all_uris arr
       \<and> (\<exists>e. foldl (\<lambda>a k. add_uris a i k) arr ks ! i = (arr ! i)\<lparr>uris := uris (arr ! i) @ e\<rparr>
              \<and> (e = [] \<or> set (uris (arr ! i)) \<subset> set (uris (arr ! i) @ e))
              \<and> (\<forall>k \<in> set ks. set (uris (arr ! k)) \<subseteq> set (uris (arr ! i) @ e)))"
  using assms
proof (induction ks arbitrary: arr)
  case Nil
  have "arr ! i = (arr ! i)\<lparr>uris := uris (arr ! i) @ []\<rparr> \<and> ([] = ([]::string list) \<or> set (uris (arr ! i)) \<subset> set (uris (arr ! i) @ []))"
    by simp
  then have "\<exists>e. arr ! i = (arr ! i)\<lparr>uris := uris (arr ! i) @ e\<rparr> \<and> (e = [] \<or> set (uris (arr ! i)) \<subset> set (uris (arr ! i) @ e))"
    by (rule exI)
  then show ?case by simp
next
  case (Cons k ks)
  let ?a = "add_uris arr i k"
  let ?r = "foldl (\<lambda>a k. add_uris a i k) ?a ks"
  have len: "i < length ?a" "\<forall>k \<in> set ks. k < length ?a"
    using Cons.prems by simp_all
  from Cons.IH [OF len]
  obtain e where ih: "length ?r = length arr" "\<forall>m. m \<noteq> i \<longrightarrow> ?r ! m = ?a ! m"
    "all_uris ?r = all_uris ?a" "?r ! i = (?a ! i)\<lparr>uris := uris (?a ! i) @ e\<rparr>"
    "e = [] \<or> set (uris (?a ! i)) \<subset> set (uris (?a ! i) @ e)"
    "\<forall>k \<in> set ks. set (uris (?a ! k)) \<subseteq> set (uris (?a ! i) @ e)"
    by auto
  have at: "?a ! i = (arr ! i)\<lparr>uris := absorb (uris (arr ! i)) (uris (arr ! k))\<rparr>"
    using Cons.prems by (simp add: add_uris_at)
  define e' where "e' = filter (\<lambda>x. x \<notin> set (uris (arr ! i))) (uris (arr ! k)) @ e"
  have ui: "uris (?a ! i) @ e = uris (arr ! i) @ e'"
    by (simp add: at e'_def absorb_def)
  have 1: "?r ! i = (arr ! i)\<lparr>uris := uris (arr ! i) @ e'\<rparr>"
    using ih(4) ui by (simp add: at)
  have 2: "e' = [] \<or> set (uris (arr ! i)) \<subset> set (uris (arr ! i) @ e')"
  proof -
    from absorb_grows [of "uris (arr ! i)" "uris (arr ! k)"]
    show ?thesis
    proof
      assume same: "absorb (uris (arr ! i)) (uris (arr ! k)) = uris (arr ! i)"
      then have f: "filter (\<lambda>x. x \<notin> set (uris (arr ! i))) (uris (arr ! k)) = []"
        by (simp add: absorb_def)
      from ih(5) show ?thesis
        by (auto simp: at same e'_def f)
    next
      assume "set (uris (arr ! i)) \<subset> set (absorb (uris (arr ! i)) (uris (arr ! k)))"
      moreover have "set (absorb (uris (arr ! i)) (uris (arr ! k))) \<subseteq> set (uris (arr ! i) @ e')"
        by (auto simp: e'_def)
      ultimately show ?thesis by blast
    qed
  qed
  have 3: "\<forall>k' \<in> set (k # ks). set (uris (arr ! k')) \<subseteq> set (uris (arr ! i) @ e')"
  proof
    fix k' assume k': "k' \<in> set (k # ks)"
    show "set (uris (arr ! k')) \<subseteq> set (uris (arr ! i) @ e')"
    proof (cases "k' = i")
      case True
      then show ?thesis by simp
    next
      case False
      then have same: "?a ! k' = arr ! k'" by (simp add: add_uris_other)
      show ?thesis
      proof (cases "k' = k")
        case True
        then show ?thesis by (auto simp: e'_def)
      next
        case False
        with k' have "k' \<in> set ks" by simp
        with ih(6) have "set (uris (?a ! k')) \<subseteq> set (uris (?a ! i) @ e)" by blast
        then show ?thesis by (simp only: same ui)
      qed
    qed
  qed
  have 4: "all_uris ?r = all_uris arr"
    using ih(3) all_uris_add_uris [of i arr k] Cons.prems by simp
  have 5: "\<forall>m. m \<noteq> i \<longrightarrow> ?r ! m = arr ! m"
    using ih(2) by (simp add: add_uris_other)
  from ih(1) 1 2 3 4 5 show ?case
    by (simp only: foldl_Cons) blast
qed

lemma add_matching_props:
  assumes "i < length arr"
  shows "length (add_matching arr i u) = length arr
       \<and> (\<forall>m. m \<noteq> i \<longrightarrow> add_matching arr i u ! m = arr ! m)
       \<and> all_uris (add_matching arr i u) = all_uris arr
       \<and> (\<exists>e. add_matching arr i u ! i = (arr ! i)\<lparr>uris := uris (arr ! i) @ e\<rparr>
              \<and> (e = [] \<or> set (uris (arr ! i)) \<subset> set (uris (arr ! i) @ e))
              \<and> (\<forall>k < length arr. u \<in> set (uris (arr ! k)) \<longrightarrow>
                     set (uris (arr ! k)) \<subseteq> set (uris (arr ! i) @ e)))"
proof -
  let ?ks = "filter (\<lambda>k. u \<in> set (uris (arr ! k))) [0..<length arr]"
  have "\<forall>k \<in> set ?ks. k < length arr" by simp
  from foldl_add_uris [OF assms this]
  obtain e where e: "length (add_matching arr i u) = length arr"
    "\<forall>m. m \<noteq> i \<longrightarrow> add_matching arr i u ! m = arr ! m"
    "all_uris (add_matching arr i u) = all_uris arr"
    "add_matching arr i u ! i = (arr ! i)\<lparr>uris := uris (arr ! i) @ e\<rparr>"
    "e = [] \<or> set (uris (arr ! i)) \<subset> set (uris (arr ! i) @ e)"
    "\<forall>k \<in> set ?ks. set (uris (arr ! k)) \<subseteq> set (uris (arr ! i) @ e)"
    unfolding add_matching_def by blast
  from e(6) have "\<forall>k < length arr. u \<in> set (uris (arr ! k)) \<longrightarrow>
      set (uris (arr ! k)) \<subseteq> set (uris (arr ! i) @ e)"
    by simp
  with e(1-5) show ?thesis by blast
qed

lemma add_matching_length [simp]: "i < length arr \<Longrightarrow> length (add_matching arr i u) = length arr"
  using add_matching_props by blast

lemma add_matching_other: "i < length arr \<Longrightarrow> m \<noteq> i \<Longrightarrow> add_matching arr i u ! m = arr ! m"
  using add_matching_props by blast

lemma all_uris_add_matching [simp]: "i < length arr \<Longrightarrow> all_uris (add_matching arr i u) = all_uris arr"
  using add_matching_props by blast

lemma finite_all_uris [simp]: "finite (all_uris arr)"
  by (simp add: all_uris_def)

lemma uris_subset_all: "i < length arr \<Longrightarrow> set (uris (arr ! i)) \<subseteq> all_uris arr"
  by (auto simp: all_uris_def)

lemma add_matching_measure:
  assumes i: "i < length arr" and j: "j < length (uris (arr ! i))"
  shows "((card (all_uris (add_matching arr i u) - set (uris (add_matching arr i u ! i))),
           length (uris (add_matching arr i u ! i)) - Suc j),
          (card (all_uris arr - set (uris (arr ! i))), length (uris (arr ! i)) - j))
         \<in> less_than <*lex*> less_than"
proof -
  let ?r = "add_matching arr i u"
  from add_matching_props [OF i, of u] obtain e where
    e: "?r ! i = (arr ! i)\<lparr>uris := uris (arr ! i) @ e\<rparr>"
      "e = [] \<or> set (uris (arr ! i)) \<subset> set (uris (arr ! i) @ e)"
    by blast
  show ?thesis
  proof (cases "e = []")
    case True
    with e(1) have "uris (?r ! i) = uris (arr ! i)" by simp
    with i j show ?thesis by simp
  next
    case False
    with e have grow: "set (uris (arr ! i)) \<subset> set (uris (?r ! i))" by simp
    have "set (uris (?r ! i)) \<subseteq> all_uris ?r"
      using i by (intro uris_subset_all) simp
    then have sub: "set (uris (?r ! i)) \<subseteq> all_uris arr" using i by simp
    from grow sub have "all_uris arr - set (uris (?r ! i)) \<subset> all_uris arr - set (uris (arr ! i))"
      by blast
    then have "card (all_uris arr - set (uris (?r ! i))) < card (all_uris arr - set (uris (arr ! i)))"
      by (intro psubset_card_mono) simp_all
    with i show ?thesis by simp
  qed
qed

function uris_loop :: "dedup_entry list \<Rightarrow> nat \<Rightarrow> nat \<Rightarrow> dedup_entry list" where
  "uris_loop arr i j =
     (if i < length arr \<and> j < length (uris (arr ! i))
      then uris_loop (add_matching arr i (uris (arr ! i) ! j)) i (Suc j)
      else arr)"
  by pat_completeness auto
termination
proof (relation "inv_image (less_than <*lex*> less_than)
    (\<lambda>(arr, i, j). (card (all_uris arr - set (uris (arr ! i))), length (uris (arr ! i)) - j))")
  show "wf (inv_image (less_than <*lex*> less_than)
    (\<lambda>(arr, i, j). (card (all_uris arr - set (uris (arr ! i))), length (uris (arr ! i)) - j)))"
    by (intro wf_inv_image wf_lex_prod wf_less_than)
next
  fix arr :: "dedup_entry list" and i j
  assume "i < length arr \<and> j < length (uris (arr ! i))"
  then show "((add_matching arr i (uris (arr ! i) ! j), i, Suc j), arr, i, j)
      \<in> inv_image (less_than <*lex*> less_than)
        (\<lambda>(arr, i, j). (card (all_uris arr - set (uris (arr ! i))), length (uris (arr ! i)) - j))"
    using add_matching_measure [of i arr j] by simp
qed

declare uris_loop.simps [simp del]

definition normalizeUris :: "dedup_entry list \<Rightarrow> dedup_entry list" where
  "normalizeUris arr = foldl (\<lambda>a i. uris_loop a i 0) arr [0..<length arr]"

subsection \<open>performDeduplication and deduplicateCitations\<close>

text \<open>
  The state of the loop of \<open>performDeduplication\<close>: the array, the set of indices marked as
  duplicates, and the store that \<open>addCiteCountToItem\<close> writes to. \<open>dedup_step\<close> is one
  iteration.
\<close>

record dedup_state =
  entries :: "dedup_entry list"
  duplicateIndices :: "nat set"
  objects :: store

definition dedup_step :: "dedup_state \<Rightarrow> nat \<Rightarrow> dedup_state" where
  "dedup_step s i =
     (let currentItem = entries s ! i
      in if index currentItem \<in> duplicateIndices s then s
         else if uris currentItem = [] then s
         else
           (let uri = hd (uris currentItem);
                matchingItems =
                  filter (\<lambda>e. uri \<in> set (uris e) \<and> index e \<notin> duplicateIndices s) (entries s);
                n = length matchingItems
            in \<lparr>entries =
                  (entries s)[i := currentItem\<lparr>count := n, indices := Some (map index matchingItems)\<rparr>],
                duplicateIndices =
                  duplicateIndices s
                  \<union> set (map index (filter (\<lambda>e. index currentItem < index e) matchingItems)),
                objects =
                  (case item currentItem of
                     None \<Rightarrow> objects s
                   | Some a \<Rightarrow> (objects s)[a := addCiteCountToItem (objects s ! a) n])\<rparr>))"

definition performDeduplication :: "dedup_entry list \<Rightarrow> store \<Rightarrow> dedup_entry list \<times> store" where
  "performDeduplication arr st =
     (let s = foldl dedup_step \<lparr>entries = arr, duplicateIndices = {}, objects = st\<rparr> [0..<length arr]
      in (filter (\<lambda>e. index e \<notin> duplicateIndices s) (entries s), objects s))"

definition deduplicateCitations :: "store \<Rightarrow> citation list \<Rightarrow> dedup_result list \<times> store" where
  "deduplicateCitations st citations =
     (if citations = [] then ([], st)
      else
        (let (deduplicatedArray, st') =
               performDeduplication (normalizeUris (deduplicationArray citations)) st
         in (map (\<lambda>entry.
                    \<lparr>r_itemData = item entry, r_uris = uris entry, r_count = count entry,
                     r_indices = (case indices entry of Some l \<Rightarrow> l | None \<Rightarrow> [index entry])\<rparr>)
               (filter (\<lambda>entry. item entry \<noteq> None) deduplicatedArray),
             st')))"

text \<open>A citation entry with the given identifiers and record reference, for the examples.\<close>

definition cite :: "string list \<Rightarrow> addr option \<Rightarrow> citation" where
  "cite us a = \<lparr>c_uris = Some us, c_itemData = a, c_fieldIndex = 0, c_citeIndex = 0, c_originalField = []\<rparr>"

text \<open>
  A set of identifiers is saturated for an array when every entry has all of its identifiers
  in the set or none.
\<close>

definition saturated :: "string set \<Rightarrow> dedup_entry list \<Rightarrow> bool" where
  "saturated S arr \<longleftrightarrow>
     (\<forall>m < length arr. set (uris (arr ! m)) \<subseteq> S \<or> set (uris (arr ! m)) \<inter> S = {})"

text \<open>
  The loop invariant of \<open>uris_loop\<close>: the identifiers of entry \<open>i\<close> before position \<open>j\<close>
  have been followed.
\<close>

definition covered :: "dedup_entry list \<Rightarrow> nat \<Rightarrow> nat \<Rightarrow> bool" where
  "covered arr i j \<longleftrightarrow>
     (\<forall>j' < j. j' < length (uris (arr ! i)) \<longrightarrow>
        (\<forall>m < length arr. uris (arr ! i) ! j' \<in> set (uris (arr ! m)) \<longrightarrow>
           set (uris (arr ! m)) \<subseteq> set (uris (arr ! i))))"

text \<open>\<open>extends a b\<close>: array \<open>b\<close> is \<open>a\<close> with identifiers appended to some lists.\<close>

definition extends :: "dedup_entry list \<Rightarrow> dedup_entry list \<Rightarrow> bool" where
  "extends a b \<longleftrightarrow>
     length b = length a \<and> (\<forall>k < length a. \<exists>e. b ! k = (a ! k)\<lparr>uris := uris (a ! k) @ e\<rparr>)"

text \<open>Entries that share an identifier have the same identifiers.\<close>

definition closed :: "dedup_entry list \<Rightarrow> bool" where
  "closed arr \<longleftrightarrow>
     (\<forall>k < length arr. \<forall>m < length arr.
        set (uris (arr ! k)) \<inter> set (uris (arr ! m)) \<noteq> {} \<longrightarrow>
        set (uris (arr ! k)) = set (uris (arr ! m)))"

text \<open>
  What \<open>performDeduplication\<close> computes on a closed array, without the loop: the entries
  with the identifiers of entry \<open>k\<close> (\<open>cluster_of\<close>), the first of them (\<open>is_head\<close>), the
  indices marked as duplicates after \<open>i\<close> iterations, the final state of entry \<open>k\<close>, and the
  write to the store for the cluster of \<open>k\<close>.
\<close>

definition well_indexed :: "dedup_entry list \<Rightarrow> bool" where
  "well_indexed arr \<longleftrightarrow> (\<forall>k < length arr. index (arr ! k) = k)"

definition cluster_of :: "dedup_entry list \<Rightarrow> nat \<Rightarrow> nat list" where
  "cluster_of arr k = filter (\<lambda>m. set (uris (arr ! m)) = set (uris (arr ! k))) [0..<length arr]"

definition is_head :: "dedup_entry list \<Rightarrow> nat \<Rightarrow> bool" where
  "is_head arr k \<longleftrightarrow>
     uris (arr ! k) \<noteq> [] \<and> (\<forall>m < k. set (uris (arr ! m)) \<noteq> set (uris (arr ! k)))"

definition dups_upto :: "dedup_entry list \<Rightarrow> nat \<Rightarrow> nat set" where
  "dups_upto arr i =
     {m. m < length arr \<and> uris (arr ! m) \<noteq> []
         \<and> (\<exists>k < i. k < m \<and> set (uris (arr ! k)) = set (uris (arr ! m)))}"

definition final_entry :: "dedup_entry list \<Rightarrow> nat \<Rightarrow> dedup_entry" where
  "final_entry arr k =
     (if is_head arr k
      then (arr ! k)\<lparr>count := length (cluster_of arr k), indices := Some (cluster_of arr k)\<rparr>
      else arr ! k)"

definition annotate :: "dedup_entry list \<Rightarrow> store \<Rightarrow> nat \<Rightarrow> store" where
  "annotate arr st k =
     (case item (arr ! k) of
        None \<Rightarrow> st
      | Some a \<Rightarrow> st[a := addCiteCountToItem (st ! a) (length (cluster_of arr k))])"

text \<open>The invariant of the loop of \<open>performDeduplication\<close> on a closed array.\<close>

definition dedup_inv :: "dedup_entry list \<Rightarrow> store \<Rightarrow> nat \<Rightarrow> dedup_state \<Rightarrow> bool" where
  "dedup_inv arr st i s \<longleftrightarrow>
     length (entries s) = length arr
     \<and> duplicateIndices s = dups_upto arr i
     \<and> (\<forall>k < length arr. entries s ! k = (if k < i then final_entry arr k else arr ! k))
     \<and> objects s = foldl (annotate arr) st (filter (is_head arr) [0..<i])"

text \<open>The entries that \<open>performDeduplication\<close> returns: not marked as duplicates.\<close>

definition kept :: "dedup_entry list \<Rightarrow> nat \<Rightarrow> bool" where
  "kept arr k \<longleftrightarrow> uris (arr ! k) = [] \<or> is_head arr k"

text \<open>The identifiers of an entry: \<^verbatim>\<open>cite.hasOwnProperty('uris') ? [...cite.uris] : []\<close>.\<close>

definition uris_of :: "citation \<Rightarrow> string list" where
  "uris_of c = (case c_uris c of Some us \<Rightarrow> us | None \<Rightarrow> [])"

text \<open>The clusters of the clustering step, and what \<open>deduplicateCitations\<close> returns of them.\<close>

definition clusters :: "citation list \<Rightarrow> store \<Rightarrow> dedup_entry list" where
  "clusters citations st = fst (performDeduplication (normalizeUris (deduplicationArray citations)) st)"

text \<open>
  Two entries are connected when a chain of entries leads from one to the other in which
  neighbours share an identifier.
\<close>

inductive connected :: "citation list \<Rightarrow> nat \<Rightarrow> nat \<Rightarrow> bool" where
  conn_refl: "p < length cs \<Longrightarrow> connected cs p p"
| conn_step: "connected cs p q \<Longrightarrow> r < length cs \<Longrightarrow>
     set (uris_of (cs ! q)) \<inter> set (uris_of (cs ! r)) \<noteq> {} \<Longrightarrow> connected cs p r"

text \<open>
  The member indices of a cluster, as \<open>deduplicateCitations\<close> reads them:
  \<^verbatim>\<open>entry.indices || [entry.index]\<close>.
\<close>

definition cluster_members :: "dedup_entry \<Rightarrow> nat set" where
  "cluster_members e = (case indices e of Some l \<Rightarrow> set l | None \<Rightarrow> {index e})"

text \<open>Scenario B: A and B share \<open>u1\<close>, B and C share \<open>u2\<close>.\<close>

definition scenario_B :: "citation list" where
  "scenario_B = [cite [''u1''] None, cite [''u1'', ''u2''] None, cite [''u2''] None]"

text \<open>A record with a title only.\<close>

definition item_X :: csl_item where
  "item_X = \<lparr>title = Some ''X'', author = None, note_field = None, other = []\<rparr>"

text \<open>Two entries with the same identifier, of which only the second has a record.\<close>

definition null_first :: "citation list" where
  "null_first = [cite [''u1''] None, cite [''u1''] (Some 0)]"

text \<open>Scenario A: two entries with the identifier \<open>u1\<close>, the first with a record.\<close>

definition scenario_A :: "citation list" where
  "scenario_A = [cite [''u1''] (Some 0), cite [''u1''] None]"

text \<open>No two entries of the array share an identifier.\<close>

definition disjoint_uris :: "dedup_entry list \<Rightarrow> bool" where
  "disjoint_uris arr \<longleftrightarrow>
     (\<forall>i < length arr. \<forall>j < length arr. i \<noteq> j \<longrightarrow> set (uris (arr ! i)) \<inter> set (uris (arr ! j)) = {})"

text \<open>Records that carry the annotation of count 1 already.\<close>

definition cited_once :: csl_item where
  "cited_once = \<lparr>title = Some ''X'', author = None, note_field = Some ''Times cited: 1'', other = []\<rparr>"

definition untitled_once :: csl_item where
  "untitled_once = \<lparr>title = None, author = None, note_field = Some ''Times cited: 1'', other = []\<rparr>"

text \<open>A deduplicated list of two records, the second without identifiers.\<close>

definition already_deduplicated :: "citation list" where
  "already_deduplicated = [cite [''u1''] (Some 0), cite [] (Some 1)]"

section \<open>MetadataProjector and the whole run\<close>

text \<open>
  \<^verbatim>\<open>metadata[field] && metadata[field].toString().trim().length > 0\<close> for the one
  required field, the title.
\<close>

definition isValidMetadata :: "csl_item \<Rightarrow> bool" where
  "isValidMetadata metadata =
     (case title metadata of None \<Rightarrow> False | Some t \<Rightarrow> t \<noteq> [] \<and> trim t \<noteq> [])"

definition extractMetadata :: "store \<Rightarrow> dedup_result list \<Rightarrow> addr list" where
  "extractMetadata st deduplicatedCitations =
     concat (map (\<lambda>citation.
                    case r_itemData citation of
                      None \<Rightarrow> []
                    | Some a \<Rightarrow> if isValidMetadata (st ! a) then [a] else [])
               deduplicatedCitations)"

record processing_stats =
  totalFields :: nat
  validCitations :: nat
  duplicatesRemoved :: int
  citesWithoutMetadata :: int

text \<open>
  The result of \<open>processFields\<close>; the early return for a batch without citations has neither
  \<^verbatim>\<open>rawCitations\<close> nor \<^verbatim>\<open>deduplicatedCitations\<close>. Timing and logging are left out.
\<close>

record process_result =
  res_citations :: "addr list"
  res_statistics :: processing_stats
  res_isEmpty :: bool
  res_rawCitations :: "citation list option"
  res_deduplicatedCitations :: "dedup_result list option"

definition processFields ::
  "(string \<Rightarrow> payload option) \<Rightarrow> store \<Rightarrow> string list \<Rightarrow> process_result \<times> store" where
  "processFields JSON_parse st fieldList =
     (let (parsedCitations, st1) = parseFields JSON_parse st fieldList
      in if parsedCitations = []
         then (\<lparr>res_citations = [],
                res_statistics = \<lparr>totalFields = length fieldList, validCitations = 0,
                                  duplicatesRemoved = 0, citesWithoutMetadata = 0\<rparr>,
                res_isEmpty = True, res_rawCitations = None, res_deduplicatedCitations = None\<rparr>,
               st1)
         else
           (let (deduplicatedCitations, st2) = deduplicateCitations st1 parsedCitations;
                metadataItems = extractMetadata st2 deduplicatedCitations
            in (\<lparr>res_citations = metadataItems,
                  res_statistics =
                    \<lparr>totalFields = length fieldList, validCitations = length parsedCitations,
                     duplicatesRemoved = int (length parsedCitations) - int (length deduplicatedCitations),
                     citesWithoutMetadata = int (length deduplicatedCitations) - int (length metadataItems)\<rparr>,
                  res_isEmpty = (metadataItems = []),
                  res_rawCitations = Some parsedCitations,
                  res_deduplicatedCitations = Some deduplicatedCitations\<rparr>,
                st2)))"

text \<open>The record references of a list of entries, in order.\<close>

definition itemData_refs :: "citation list \<Rightarrow> addr list" where
  "itemData_refs cs = concat (map (\<lambda>c. case c_itemData c of None \<Rightarrow> [] | Some a \<Rightarrow> [a]) cs)"

text \<open>A parser that knows one payload with a record, for the example.\<close>

definition titled_parse :: "string \<Rightarrow> payload option" where
  \<open>titled_parse s =
     (if s = ''{"citationItems":[{"uris":["u1"],"itemData":{"title":"X"}}]}''
      then Some (Object (Some [Some \<lparr>p_uris = Some [''u1''], p_itemData = Some item_X\<rparr>]))
      else None)\<close>

text \<open>A field whose payload has one item with a record.\<close>

definition titled_field :: string where
  \<open>titled_field = ''ADDIN CSL_CITATION {"citationItems":[{"uris":["u1"],"itemData":{"title":"X"}}]}''\<close>

section \<open>OutputFormatter\<close>

text \<open>
  What the formatter takes from its platform: \<^verbatim>\<open>JSON.stringify\<close> of a record list, plain
  and with indentation 2, and of the options; and the citation-rendering capability
  \<^verbatim>\<open>Cite\<close>, \<open>None\<close> when it is not loaded. The renderer takes the JSON text, the format and
  the options (none in \<open>formatBibliographyWithCounts\<close>); \<open>None\<close> is a thrown error.
\<close>

record 'o platform =
  JSON_stringify :: "csl_item list \<Rightarrow> string"
  JSON_stringify_pretty :: "csl_item list \<Rightarrow> string"
  JSON_stringify_options :: "'o \<Rightarrow> string"
  Cite :: "(string \<Rightarrow> string \<Rightarrow> 'o option \<Rightarrow> string option) option"

datatype format_error =
  CitationJsNotAvailable | CitationJsFailed | FormatNotAString

record formatter_state =
  currentCitations :: "csl_item list"
  formattingCache :: "(string \<times> string) list"

text \<open>\<^verbatim>\<open>s.split('\n')\<close> and \<^verbatim>\<open>lines.join('\n')\<close>.\<close>

fun split_lines :: "string \<Rightarrow> string list" where
  "split_lines [] = [[]]"
| "split_lines (c # cs) =
     (if c = nl then [] # split_lines cs
      else (case split_lines cs of [] \<Rightarrow> [[c]] | l # ls \<Rightarrow> (c # l) # ls))"

fun join_lines :: "string list \<Rightarrow> string" where
  "join_lines [] = []"
| "join_lines [l] = l"
| "join_lines (l # m # ls) = l @ [nl] @ join_lines (m # ls)"

fun join_comma :: "string list \<Rightarrow> string" where
  "join_comma [] = []"
| "join_comma [l] = l"
| "join_comma (l # m # ls) = l @ '', '' @ join_comma (m # ls)"

subsection \<open>addCountsToTitle\<close>

text \<open>
  The first match of \<^verbatim>\<open>/Times cited: (\d+)/\<close> in a note: its digits.
\<close>

fun find_count :: "string \<Rightarrow> string option" where
  "find_count [] = None"
| "find_count (c # cs) =
     (case strip_prefix ''Times cited: '' (c # cs) of
        None \<Rightarrow> find_count cs
      | Some r \<Rightarrow> if takeWhile is_digit r \<noteq> [] then Some (takeWhile is_digit r) else find_count cs)"

definition addCountToTitle :: "csl_item \<Rightarrow> csl_item" where
  "addCountToTitle citation =
     (let countText = (case note_field citation of
                     None \<Rightarrow> ''NA''
                   | Some n \<Rightarrow> (case find_count n of None \<Rightarrow> ''NA'' | Some digits \<Rightarrow> digits))
      in case title citation of
           None \<Rightarrow> citation
         | Some t \<Rightarrow>
             if t = [] then citation
             else citation\<lparr>title := Some (''['' @ countText @ '' citations] '' @ t)\<rparr>)"

definition addCountsToTitle :: "csl_item list \<Rightarrow> csl_item list" where
  "addCountsToTitle citations = map addCountToTitle citations"

subsection \<open>formatBibliographyWithCounts\<close>

text \<open>
  \<^verbatim>\<open>line.match(/\[(\d+) citations\] /)\<close>: the first match in a line, as the text before
  it, its digits and the text after it.
\<close>

definition marker_here :: "string \<Rightarrow> (string \<times> string) option" where
  "marker_here s =
     (case s of
        [] \<Rightarrow> None
      | c # r \<Rightarrow>
          if c = CHR ''['' \<and> takeWhile is_digit r \<noteq> []
          then (case strip_prefix '' citations] '' (dropWhile is_digit r) of
                  None \<Rightarrow> None
                | Some after \<Rightarrow> Some (takeWhile is_digit r, after))
          else None)"

fun find_marker :: "string \<Rightarrow> (string \<times> string \<times> string) option" where
  "find_marker [] = None"
| "find_marker (c # cs) =
     (case marker_here (c # cs) of
        Some (digits, after) \<Rightarrow> Some ([], digits, after)
      | None \<Rightarrow>
          (case find_marker cs of
             None \<Rightarrow> None
           | Some (before, digits, after) \<Rightarrow> Some (c # before, digits, after)))"

text \<open>
  One line of the rendered bibliography: nothing for a blank line, otherwise the count and
  the row. \<^verbatim>\<open>parseInt\<close> is a parameter; its values only have to be ordered.
\<close>

definition format_line :: "(string \<Rightarrow> 'k::{linorder,zero}) \<Rightarrow> string \<Rightarrow> ('k \<times> string) option" where
  "format_line parseInt line =
     (if trim line = [] then None
      else (case find_marker line of
              Some (before, digits, after) \<Rightarrow> Some (parseInt digits, digits @ [tab] @ before @ after)
            | None \<Rightarrow> Some (0, ''0'' @ [tab] @ line)))"

text \<open>\<^verbatim>\<open>formattedLines.sort((a, b) => b[0] - a[0])\<close>: a stable sort, larger counts first.\<close>

fun insert_desc :: "('k::linorder) \<times> string \<Rightarrow> ('k \<times> string) list \<Rightarrow> ('k \<times> string) list" where
  "insert_desc x [] = [x]"
| "insert_desc x (y # ys) = (if fst y \<le> fst x then x # y # ys else y # insert_desc x ys)"

definition sort_desc :: "(('k::linorder) \<times> string) list \<Rightarrow> ('k \<times> string) list" where
  "sort_desc xs = foldr insert_desc xs []"

definition starts_with_zero :: "string \<Rightarrow> bool" where
  "starts_with_zero line = (strip_prefix (''0'' @ [tab]) line \<noteq> None)"

definition count_table :: "(string \<Rightarrow> 'k::{linorder,zero}) \<Rightarrow> string \<Rightarrow> string" where
  "count_table parseInt bibliography =
     (let formattedLines = sort_desc (List.map_filter (format_line parseInt) (split_lines bibliography));
          header = ''cite_count'' @ [tab] @ ''reference'' @ [nl];
          body = join_lines (filter (\<lambda>line. \<not> starts_with_zero line) (map snd formattedLines))
      in header @ body)"

definition formatBibliographyWithCounts ::
  "'o platform \<Rightarrow> (string \<Rightarrow> 'k::{linorder,zero}) \<Rightarrow> csl_item list \<Rightarrow> format_error + string" where
  "formatBibliographyWithCounts env parseInt citations =
     (case Cite env of
        None \<Rightarrow> Inl CitationJsNotAvailable
      | Some render \<Rightarrow>
          (case render (JSON_stringify env (addCountsToTitle citations)) ''bibliography'' None of
             None \<Rightarrow> Inl CitationJsFailed
           | Some bibliography \<Rightarrow> Inr (count_table parseInt bibliography)))"

subsection \<open>formatWithCitationJs, formatFallback and format\<close>

text \<open>
  Whatever is thrown inside \<open>formatWithCitationJs\<close> is thrown on as a handled error; the
  formats other than \<open>data-with-counts\<close> are rendered from the cleaned records.
\<close>

definition formatWithCitationJs ::
  "'o platform \<Rightarrow> (string \<Rightarrow> 'k::{linorder,zero}) \<Rightarrow> csl_item list \<Rightarrow> string \<Rightarrow> 'o \<Rightarrow> format_error + string" where
  "formatWithCitationJs env parseInt citations format options =
     (case Cite env of
        None \<Rightarrow> Inl CitationJsNotAvailable
      | Some render \<Rightarrow>
          if citations = [] then Inr []
          else if format = ''bibliography-with-counts''
          then formatBibliographyWithCounts env parseInt citations
          else
            (let processedCitations =
                   (if format \<noteq> ''data-with-counts'' then cleanCitations citations else citations)
             in case render (JSON_stringify env processedCitations) format (Some options) of
                  None \<Rightarrow> Inl CitationJsFailed
                | Some result \<Rightarrow> Inr result))"

text \<open>
  The fallback: \<^verbatim>\<open>`${index + 1}. ${author}. ${title}.`\<close> per record for the format
  \<open>bibliography\<close>, JSON text for every other format.
\<close>

definition author_names :: "csl_item \<Rightarrow> string" where
  "author_names citation =
     (case author citation of
        None \<Rightarrow> ''Unknown Author''
      | Some names \<Rightarrow>
          join_comma
            (map (\<lambda>a. (case family a of None \<Rightarrow> ''undefined'' | Some f \<Rightarrow> f) @ '', ''
                       @ (case given a of None \<Rightarrow> ''undefined'' | Some g \<Rightarrow> g)) names))"

definition title_text :: "csl_item \<Rightarrow> string" where
  "title_text citation =
     (case title citation of
        None \<Rightarrow> ''Unknown Title''
      | Some t \<Rightarrow> if t = [] then ''Unknown Title'' else t)"

definition numbered_listing :: "csl_item list \<Rightarrow> string" where
  "numbered_listing citations =
     join_lines
       (map (\<lambda>(citation, i). show_nat (i + 1) @ ''. '' @ author_names citation @ ''. ''
                               @ title_text citation @ ''.'')
          (zip citations [0..<length citations]))"

definition formatFallback :: "'o platform \<Rightarrow> csl_item list \<Rightarrow> string \<Rightarrow> string" where
  "formatFallback env citations format =
     (if citations = [] then []
      else if format = ''data'' then JSON_stringify_pretty env (cleanCitations citations)
      else if format = ''data-with-counts'' then JSON_stringify_pretty env citations
      else if format = ''bibliography'' then numbered_listing citations
      else JSON_stringify_pretty env citations)"

text \<open>
  \<open>format\<close> with its cache, a list of keys and results in insertion order: a cached result is
  returned as it is; a new result is appended, and the oldest entry is dropped when the cache
  holds more than 100.
\<close>

definition generateCacheKey :: "'o platform \<Rightarrow> csl_item list \<Rightarrow> string \<Rightarrow> 'o \<Rightarrow> string" where
  "generateCacheKey env citations format options =
     format @ ''_'' @ take 100 (JSON_stringify env citations) @ ''_'' @ JSON_stringify_options env options"

definition format ::
  "'o platform \<Rightarrow> (string \<Rightarrow> 'k::{linorder,zero}) \<Rightarrow> formatter_state \<Rightarrow> string \<Rightarrow> csl_item list option \<Rightarrow> 'o
     \<Rightarrow> (format_error + string) \<times> formatter_state" where
  "format env parseInt state fmt citations options =
     (let citationsToFormat = (case citations of None \<Rightarrow> currentCitations state | Some cs \<Rightarrow> cs);
          cacheKey = generateCacheKey env citationsToFormat fmt options
      in case map_of (formattingCache state) cacheKey of
           Some cachedResult \<Rightarrow> (Inr cachedResult, state)
         | None \<Rightarrow>
             if fmt = [] then (Inl FormatNotAString, state)
             else if citationsToFormat = [] then (Inr [], state)
             else
               (let result =
                      (case formatWithCitationJs env parseInt citationsToFormat fmt options of
                         Inr r \<Rightarrow> r
                       | Inl citationJsError \<Rightarrow> formatFallback env citationsToFormat fmt);
                    cache = formattingCache state @ [(cacheKey, result)]
                in (Inr result,
                    state\<lparr>formattingCache := (if 100 < length cache then tl cache else cache)\<rparr>)))"

text \<open>The digits of a count as a number, for the examples.\<close>

definition parse_decimal :: "string \<Rightarrow> nat" where
  "parse_decimal digits = foldl (\<lambda>n c. 10 * n + (of_char c - 48)) 0 digits"

text \<open>
  Scenario E: a rendered bibliography of two lines. The same with two more lines, one whose
  marker writes the count 0 as \<open>00\<close> and one without marker; a record whose note writes
  the count that way; and a renderer that returns the four lines.
\<close>

definition scenario_E :: string where
  "scenario_E = ''[3 citations] A, A. (2020).'' @ [nl] @ ''[0 citations] B, B. (2021).''"

definition scenario_E_zeros :: string where
  "scenario_E_zeros = scenario_E @ [nl] @ ''[00 citations] C. (2022).'' @ [nl] @ ''D, D. (2023).''"

definition cited_00 :: csl_item where
  "cited_00 = \<lparr>title = Some ''C'', author = None, note_field = Some ''Times cited: 00'', other = []\<rparr>"

definition fixed_renderer :: "unit platform" where
  "fixed_renderer =
     \<lparr>JSON_stringify = (\<lambda>cs. []), JSON_stringify_pretty = (\<lambda>cs. []),
      JSON_stringify_options = (\<lambda>u. []), Cite = Some (\<lambda>json fmt opts. Some scenario_E_zeros)\<rparr>"





section \<open>Count annotations and the plain structured-data format\<close>

text \<open>
  C7. The annotation that \<open>addCiteCountToItem\<close> writes into a record without a note is
  \<open>Times cited: 3\<close> with no line feed after it. \<open>cleanCitations\<close> removes only
  annotations that a line feed follows: the note of such a record keeps its count line and is
  not deleted, while the annotation in front of an earlier note is removed.
\<close>

theorem cleanCitations_keeps_bare_count:
  "cleanCitations
     [addCiteCountToItem \<lparr>title = Some ''X'', author = None, note_field = None, other = []\<rparr> 3]
   = [\<lparr>title = Some ''X'', author = None, note_field = Some ''Times cited: 3'', other = []\<rparr>]
   \<and> cleanCitations
     [addCiteCountToItem \<lparr>title = Some ''X'', author = None, note_field = Some ''seen'', other = []\<rparr> 3]
   = [\<lparr>title = Some ''X'', author = None, note_field = Some ''seen'', other = []\<rparr>]"
  by code_simp

section \<open>The sibling walk stops at the iteration ceiling\<close>

lemma walk_on: "(case x of Element e ts \<Rightarrow> \<not> e | Other \<Rightarrow> True) = (\<not> has_end x)"
  by (cases x) simp_all

lemma instr_text_case: "instr_text x = (case x of Element e ts \<Rightarrow> concat ts | Other \<Rightarrow> [])"
  by (cases x) simp_all

lemma sibling_walk_spec:
  "iterationCount \<le> maxIterations \<Longrightarrow>
   sibling_walk doc nextRun iterationCount acc =
     (let k = maxIterations - iterationCount;
          ws = walked doc nextRun k
      in (iterationCount + length ws + (if length ws < length (siblings doc nextRun k) then 1 else 0),
          acc @ concat (map (\<lambda>n. instr_text (node doc n)) ws)))"
proof (induction doc nextRun iterationCount acc rule: sibling_walk.induct)
  case (1 doc nextRun iterationCount acc)
  show ?case
  proof (cases nextRun)
    case None
    then show ?thesis by (simp add: sibling_walk.simps walked_def walk_on)
  next
    case (Some n)
    show ?thesis
    proof (cases "iterationCount < maxIterations")
      case False
      with "1.prems" have "maxIterations - iterationCount = 0" by simp
      with Some False show ?thesis by (simp add: sibling_walk.simps walked_def walk_on)
    next
      case True
      then obtain k where k: "maxIterations - iterationCount = Suc k"
        by (cases "maxIterations - iterationCount") auto
      then have k': "maxIterations - Suc iterationCount = k" by simp
      from True have le: "Suc iterationCount \<le> maxIterations" by simp
      show ?thesis
      proof (cases "has_end (node doc n)")
        case e: True
        with Some True k show ?thesis
          by (simp add: sibling_walk.simps [of doc "Some n"] walked_def walk_on Let_def)
      next
        case e: False
        with Some True k k' "1.IH"[OF Some True e le] show ?thesis
          by (simp add: sibling_walk.simps [of doc "Some n"] walked_def walk_on Let_def)
      qed
    qed
  qed
qed

lemma sibling_walk_count: "fst (sibling_walk doc nextRun 0 []) \<le> maxIterations"
proof -
  have "length (walked doc nextRun k) \<le> length (siblings doc nextRun k)" for k
    unfolding walked_def by (rule length_takeWhile_le)
  moreover have "length (siblings doc nextRun k) \<le> k" for k
    by (induction doc nextRun k rule: siblings.induct) auto
  ultimately have "length (walked doc nextRun maxIterations) \<le> length (siblings doc nextRun maxIterations)"
    and "length (siblings doc nextRun maxIterations) \<le> maxIterations"
    by blast+
  then show ?thesis
    by (simp add: sibling_walk_spec Let_def)
qed

lemma extract_fields_fold:
  "foldl (\<lambda>(fields, log) fieldStart.
              (let (warnings, fieldContent) = extractComplexFieldContent doc fieldStart
               in (if fieldContent \<noteq> [] \<and> trim fieldContent \<noteq> [] then fields @ [fieldContent] else fields,
                   log @ warnings)))
       (fs, lg) starts =
   (fs @ filter (\<lambda>c. c \<noteq> [] \<and> trim c \<noteq> []) (map (\<lambda>s. snd (extractComplexFieldContent doc s)) starts),
    lg @ concat (map (\<lambda>s. fst (extractComplexFieldContent doc s)) starts))"
  by (induction starts arbitrary: fs lg) (auto simp: Let_def split: prod.splits)

lemma extractComplexFieldContent_content:
  "parentElement doc fieldStart = Some p \<Longrightarrow>
   snd (extractComplexFieldContent doc fieldStart) =
     trim (concat (map (\<lambda>n. case node doc n of Element e ts \<Rightarrow> concat ts | Other \<Rightarrow> [])
                     (walked doc (nextSibling doc p) 1000)))"
  by (simp add: extractComplexFieldContent_def sibling_walk_spec Let_def instr_text_case maxIterations_def)

lemma extractComplexFieldContent_ceiling:
  "parentElement doc fieldStart = Some p \<Longrightarrow>
   length (walked doc (nextSibling doc p) 1000) = 1000 \<Longrightarrow>
   fst (extractComplexFieldContent doc fieldStart) = [ReachedMaximumIterations]"
  by (simp add: extractComplexFieldContent_def sibling_walk_spec Let_def maxIterations_def)

lemma extractOfficeOpenXmlFields_all:
  "extractOfficeOpenXmlFields doc starts =
     (filter (\<lambda>c. c \<noteq> [] \<and> trim c \<noteq> []) (map (\<lambda>s. snd (extractComplexFieldContent doc s)) starts),
      concat (map (\<lambda>s. fst (extractComplexFieldContent doc s)) starts))"
  unfolding extractOfficeOpenXmlFields_def extract_fields_fold by simp

lemma trim_empty: "trim s = [] \<longleftrightarrow> (\<forall>c \<in> set s. is_space c)"
proof
  assume "trim s = []"
  then have all: "\<forall>c \<in> set (dropWhile is_space s). is_space c"
    by (simp add: trim_def)
  have "dropWhile is_space s = []"
  proof (rule ccontr)
    assume ne: "dropWhile is_space s \<noteq> []"
    then have "\<not> is_space (hd (dropWhile is_space s))" by (rule hd_dropWhile)
    moreover from ne have "hd (dropWhile is_space s) \<in> set (dropWhile is_space s)" by simp
    ultimately show False using all by blast
  qed
  then show "\<forall>c \<in> set s. is_space c" by (simp only: dropWhile_eq_Nil_conv)
next
  assume "\<forall>c \<in> set s. is_space c"
  then have "dropWhile is_space s = []" by (simp only: dropWhile_eq_Nil_conv)
  then show "trim s = []" by (simp only: trim_def rev.simps dropWhile.simps)
qed

text \<open>The endless chain: what a walk over its first \<open>k\<close> siblings collects, and the trimmed text.\<close>

lemma endless_siblings: "length (walked endless (Some (Suc n)) k) = k"
  by (induction k arbitrary: n) (auto simp: walked_def endless_def)

lemma endless_text:
  "concat (map (\<lambda>n. case node endless n of Element e ts \<Rightarrow> concat ts | Other \<Rightarrow> [])
             (walked endless (Some (Suc n)) k)) = concat (replicate k ''a '')"
  by (induction k arbitrary: n) (auto simp: walked_def endless_def)

lemma trim_words: "trim (concat (replicate (Suc k) ''a '')) = concat (replicate k ''a '') @ ''a''"
proof -
  have e: "concat (replicate (Suc k) ''a '') = concat (replicate k ''a '') @ ''a ''"
    by (induction k) simp_all
  have "dropWhile is_space (concat (replicate (Suc k) ''a '')) = concat (replicate (Suc k) ''a '')"
    by (simp add: is_space_def)
  then have "trim (concat (replicate (Suc k) ''a ''))
      = rev (dropWhile is_space (rev (concat (replicate k ''a '') @ ''a '')))"
    by (simp only: trim_def e)
  also have "\<dots> = concat (replicate k ''a '') @ ''a''"
    by (simp add: is_space_def)
  finally show ?thesis .
qed

text \<open>
  C5. The walk from a begin marker is a total function and makes at most 1000 iterations,
  whatever the sibling chain. The content it returns is the accumulated text, trimmed: the
  text contents of the instruction-text elements of the siblings walked, in document order,
  where the siblings walked are those among the first 1000 that come before a sibling with
  an end marker. When 1000 siblings were walked and none held an end marker, the warning is
  logged and that partial text is returned. The scan processes every begin marker: the
  fields are the contents of all begin markers, in order, without the contents that are
  empty after trimming, and the log holds the warnings of all of them.
\<close>

theorem complex_field_walk_bounded:
  "fst (sibling_walk doc start 0 []) \<le> 1000
   \<and> (parentElement doc fieldStart = Some p \<longrightarrow>
        snd (extractComplexFieldContent doc fieldStart) =
          trim (concat (map (\<lambda>n. case node doc n of Element e ts \<Rightarrow> concat ts | Other \<Rightarrow> [])
                          (walked doc (nextSibling doc p) 1000)))
        \<and> (length (walked doc (nextSibling doc p) 1000) = 1000 \<longrightarrow>
             fst (extractComplexFieldContent doc fieldStart) = [ReachedMaximumIterations]))
   \<and> extractOfficeOpenXmlFields doc starts =
        (filter (\<lambda>c. c \<noteq> [] \<and> trim c \<noteq> []) (map (\<lambda>s. snd (extractComplexFieldContent doc s)) starts),
         concat (map (\<lambda>s. fst (extractComplexFieldContent doc s)) starts))
   \<and> [] \<notin> set (map trim (fst (extractOfficeOpenXmlFields doc starts)))"
proof -
  have "fst (sibling_walk doc start 0 []) \<le> 1000"
    using sibling_walk_count [of doc start] by (simp add: maxIterations_def)
  moreover have "[] \<notin> set (map trim (fst (extractOfficeOpenXmlFields doc starts)))"
    by (auto simp: extractOfficeOpenXmlFields_all)
  ultimately show ?thesis
    using extractComplexFieldContent_content [of doc fieldStart p]
      extractComplexFieldContent_ceiling [of doc fieldStart p] extractOfficeOpenXmlFields_all [of doc starts]
    by blast
qed

lemma endless_simps:
  "parentElement endless n = Some 0" "nextSibling endless n = Some (Suc n)"
  by (simp_all add: endless_def)

lemma two_fields_scan:
  "extractOfficeOpenXmlFields two_fields [100, 101, 102, 103, 100]
     = ([''ADDIN ZOTERO_ITEM CSL_CITATION {}'', ''ADDIN ZOTERO_ITEM CSL_CITATION {}''],
        [ErrorExtractingContent])"
  by code_simp

theorem complex_field_walk_bounded_witness:
  "parentElement endless 5 = Some 0
   \<and> length (walked endless (nextSibling endless 0) 1000) = 1000
   \<and> fst (extractComplexFieldContent endless 5) = [ReachedMaximumIterations]
   \<and> snd (extractComplexFieldContent endless 5) = concat (replicate 999 ''a '') @ ''a''
   \<and> extractOfficeOpenXmlFields endless [5, 7]
       = ([concat (replicate 999 ''a '') @ ''a'', concat (replicate 999 ''a '') @ ''a''],
          [ReachedMaximumIterations, ReachedMaximumIterations])
   \<and> extractOfficeOpenXmlFields two_fields [100, 101, 102, 103, 100]
       = ([''ADDIN ZOTERO_ITEM CSL_CITATION {}'', ''ADDIN ZOTERO_ITEM CSL_CITATION {}''],
          [ErrorExtractingContent])"
proof -
  let ?text = "concat (replicate 999 ''a '') @ ''a''"
  have k: "(1000::nat) = Suc 999" by simp
  have p: "parentElement endless 5 = Some 0" "parentElement endless 7 = Some 0"
    by (rule endless_simps)+
  have n: "nextSibling endless 0 = Some (Suc 0)" by (rule endless_simps)
  have l: "length (walked endless (nextSibling endless 0) 1000) = 1000"
    by (simp only: n endless_siblings)
  have t: "trim (concat (map (\<lambda>n. case node endless n of Element e ts \<Rightarrow> concat ts | Other \<Rightarrow> [])
                          (walked endless (nextSibling endless 0) 1000))) = ?text"
    by (simp only: n endless_text k trim_words)
  have ne: "?text \<noteq> [] \<and> trim ?text \<noteq> []"
    by (simp add: trim_empty is_space_def)
  from complex_field_walk_bounded [of endless "Some 1" 5 0 "[5, 7]"] p(1) l t
  have w5: "fst (extractComplexFieldContent endless 5) = [ReachedMaximumIterations]"
    and c5: "snd (extractComplexFieldContent endless 5) = ?text"
    and all: "extractOfficeOpenXmlFields endless [5, 7] =
        (filter (\<lambda>c. c \<noteq> [] \<and> trim c \<noteq> []) (map (\<lambda>s. snd (extractComplexFieldContent endless s)) [5, 7]),
         concat (map (\<lambda>s. fst (extractComplexFieldContent endless s)) [5, 7]))"
    by simp_all
  from complex_field_walk_bounded [of endless "Some 1" 7 0 "[]"] p(2) l t
  have w7: "fst (extractComplexFieldContent endless 7) = [ReachedMaximumIterations]"
    and c7: "snd (extractComplexFieldContent endless 7) = ?text"
    by simp_all
  from all ne have "extractOfficeOpenXmlFields endless [5, 7]
       = ([?text, ?text], [ReachedMaximumIterations, ReachedMaximumIterations])"
    by (simp only: list.map filter.simps concat.simps w5 w7 c5 c7 if_True append.simps simp_thms)
  with p(1) l w5 c5 two_fields_scan show ?thesis by (simp only: simp_thms)
qed

section \<open>Fields the parser cannot use are skipped\<close>

lemma parseField_unparsable:
  "unparsable JSON_parse field \<Longrightarrow> parseField JSON_parse st field i = ([], st)"
  by (auto simp: unparsable_def parseField_def parseField_try_def Let_def
      split: option.splits payload.splits)

lemma parseFields_from_append:
  "parseFields_from JSON_parse st i (xs @ ys) =
     (let (cs, st') = parseFields_from JSON_parse st i xs;
          (ds, st'') = parseFields_from JSON_parse st' (i + length xs) ys
      in (cs @ ds, st''))"
  by (induction xs arbitrary: st i) (auto simp: Let_def split: prod.splits)

text \<open>
  C6. For a field that has no recognized prefix, or whose payload is malformed JSON, not an
  object, or lacks the \<^verbatim>\<open>citationItems\<close> array, \<open>parseField\<close> returns no entry (it is
  a total function: the errors thrown inside are caught) and leaves the store as it was; and
  a batch holding such a field parses as the fields before it followed by the fields after
  it, which keep their indices.
\<close>

theorem unparsable_field_skipped:
  "unparsable JSON_parse field \<longrightarrow>
     parseField JSON_parse st field i = ([], st)
     \<and> parseFields_from JSON_parse st i (before @ field # after) =
         (let (cs, st') = parseFields_from JSON_parse st i before;
              (ds, st'') = parseFields_from JSON_parse st' (Suc (i + length before)) after
          in (cs @ ds, st''))"
  by (auto simp: parseFields_from_append parseField_unparsable Let_def split: prod.splits)

theorem unparsable_field_skipped_witness:
  \<open>unparsable sample_parse ''ADDIN CSL_CITATION {"properties":{}}''
   \<and> parseField sample_parse [] ''ADDIN CSL_CITATION {"properties":{}}'' 1 = ([], [])
   \<and> parseFields_from sample_parse [] 0
        [''ADDIN ZOTERO_ITEM CSL_CITATION {"citationItems":[{"uris":["u1"]}]} Rz7'',
         ''ADDIN CSL_CITATION {"properties":{}}'',
         ''CSL_CITATION {"citationItems":[{"uris":["u1"]}]}'']
      = ([\<lparr>c_uris = Some [''u1''], c_itemData = None, c_fieldIndex = 0, c_citeIndex = 0,
            c_originalField = ''ADDIN ZOTERO_ITEM CSL_CITATION {"citationItems":[{"uris":["u1"]}]} Rz7''\<rparr>,
          \<lparr>c_uris = Some [''u1''], c_itemData = None, c_fieldIndex = 2, c_citeIndex = 0,
            c_originalField = ''CSL_CITATION {"citationItems":[{"uris":["u1"]}]}''\<rparr>],
         [])\<close>
proof -
  let ?bad = \<open>''ADDIN CSL_CITATION {"properties":{}}''\<close>
  let ?g1 = \<open>''ADDIN ZOTERO_ITEM CSL_CITATION {"citationItems":[{"uris":["u1"]}]} Rz7''\<close>
  let ?g2 = \<open>''CSL_CITATION {"citationItems":[{"uris":["u1"]}]}''\<close>
  have u: "unparsable sample_parse ?bad"
    by code_simp
  have a: "parseFields_from sample_parse [] 0 [?g1]
      = ([\<lparr>c_uris = Some [''u1''], c_itemData = None, c_fieldIndex = 0, c_citeIndex = 0,
            c_originalField = ?g1\<rparr>], [])"
    by code_simp
  have b: "parseFields_from sample_parse [] (Suc (0 + length [?g1])) [?g2]
      = ([\<lparr>c_uris = Some [''u1''], c_itemData = None, c_fieldIndex = 2, c_citeIndex = 0,
            c_originalField = ?g2\<rparr>], [])"
    by code_simp
  from u unparsable_field_skipped [of sample_parse ?bad "[]" 1 "[]" "[]"]
  have p: "parseField sample_parse [] ?bad 1 = ([], [])"
    by blast
  from u unparsable_field_skipped [of sample_parse ?bad "[]" 0 "[?g1]" "[?g2]"]
  have "parseFields_from sample_parse [] 0 ([?g1] @ ?bad # [?g2]) =
         (let (cs, st') = parseFields_from sample_parse [] 0 [?g1];
              (ds, st'') = parseFields_from sample_parse st' (Suc (0 + length [?g1])) [?g2]
          in (cs @ ds, st''))"
    by blast
  then have c: "parseFields_from sample_parse [] 0 [?g1, ?bad, ?g2] =
      ([\<lparr>c_uris = Some [''u1''], c_itemData = None, c_fieldIndex = 0, c_citeIndex = 0,
            c_originalField = ?g1\<rparr>,
        \<lparr>c_uris = Some [''u1''], c_itemData = None, c_fieldIndex = 2, c_citeIndex = 0,
            c_originalField = ?g2\<rparr>], [])"
    unfolding a by (simp only: b Let_def prod.case append.simps)
  from u p c show ?thesis
    by (simp only: simp_thms)
qed

section \<open>The clusters of the deduplication\<close>

lemma saturated_add_uris:
  assumes "i < length arr" "k < length arr"
    and "u \<in> set (uris (arr ! i))" "u \<in> set (uris (arr ! k))"
    and "saturated S arr"
  shows "saturated S (add_uris arr i k)"
  unfolding saturated_def
proof (intro allI impI)
  fix m assume m: "m < length (add_uris arr i k)"
  then have m': "m < length arr" by simp
  from assms(5) have sat: "\<And>m. m < length arr \<Longrightarrow>
      set (uris (arr ! m)) \<subseteq> S \<or> set (uris (arr ! m)) \<inter> S = {}"
    by (simp add: saturated_def)
  show "set (uris (add_uris arr i k ! m)) \<subseteq> S \<or> set (uris (add_uris arr i k ! m)) \<inter> S = {}"
  proof (cases "m = i")
    case False
    with sat [OF m'] show ?thesis by (simp add: add_uris_other)
  next
    case True
    from sat [OF assms(1)] sat [OF assms(2)] assms(3,4)
    have "set (uris (arr ! i)) \<union> set (uris (arr ! k)) \<subseteq> S
        \<or> (set (uris (arr ! i)) \<union> set (uris (arr ! k))) \<inter> S = {}"
      by blast
    with True assms(1) show ?thesis by (simp add: add_uris_at)
  qed
qed

lemma saturated_foldl_add_uris:
  assumes "i < length arr" "\<forall>k \<in> set ks. k < length arr \<and> u \<in> set (uris (arr ! k))"
    and "u \<in> set (uris (arr ! i))" "saturated S arr"
  shows "saturated S (foldl (\<lambda>a k. add_uris a i k) arr ks)"
  using assms
proof (induction ks arbitrary: arr)
  case Nil
  then show ?case by simp
next
  case (Cons k ks)
  let ?a = "add_uris arr i k"
  have k: "k < length arr" "u \<in> set (uris (arr ! k))" using Cons.prems(2) by simp_all
  have ui: "u \<in> set (uris (?a ! i))"
    using Cons.prems(1,3) by (simp add: add_uris_at)
  have "\<forall>k' \<in> set ks. k' < length ?a \<and> u \<in> set (uris (?a ! k'))"
  proof
    fix k' assume "k' \<in> set ks"
    with Cons.prems(2) have "k' < length arr" "u \<in> set (uris (arr ! k'))" by simp_all
    with ui show "k' < length ?a \<and> u \<in> set (uris (?a ! k'))"
      by (cases "k' = i") (simp_all add: add_uris_other)
  qed
  moreover have "saturated S ?a"
    using Cons.prems k by (intro saturated_add_uris)
  ultimately have "saturated S (foldl (\<lambda>a k. add_uris a i k) ?a ks)"
    using Cons.prems(1) ui by (intro Cons.IH) simp_all
  then show ?case by simp
qed

lemma saturated_add_matching:
  assumes "i < length arr" "u \<in> set (uris (arr ! i))" "saturated S arr"
  shows "saturated S (add_matching arr i u)"
  unfolding add_matching_def using assms
  by (intro saturated_foldl_add_uris) simp_all

lemma saturated_uris_loop:
  "saturated S arr \<Longrightarrow> saturated S (uris_loop arr i j)"
proof (induction arr i j rule: uris_loop.induct)
  case (1 arr i j)
  show ?case
  proof (cases "i < length arr \<and> j < length (uris (arr ! i))")
    case True
    then have "saturated S (add_matching arr i (uris (arr ! i) ! j))"
      using "1.prems" by (intro saturated_add_matching) simp_all
    with True "1.IH" show ?thesis
      by (subst uris_loop.simps) simp
  next
    case False
    with "1.prems" show ?thesis by (subst uris_loop.simps) auto
  qed
qed

text \<open>The loop changes the identifier list of entry \<open>i\<close> only, by appending to it.\<close>

lemma uris_loop_frame:
  "i < length arr \<Longrightarrow>
   length (uris_loop arr i j) = length arr
   \<and> (\<forall>m. m \<noteq> i \<longrightarrow> uris_loop arr i j ! m = arr ! m)
   \<and> (\<exists>e. uris_loop arr i j ! i = (arr ! i)\<lparr>uris := uris (arr ! i) @ e\<rparr>)"
proof (induction arr i j rule: uris_loop.induct)
  case (1 arr i j)
  show ?case
  proof (cases "j < length (uris (arr ! i))")
    case False
    have "arr ! i = (arr ! i)\<lparr>uris := uris (arr ! i) @ []\<rparr>" by simp
    then have "\<exists>e. arr ! i = (arr ! i)\<lparr>uris := uris (arr ! i) @ e\<rparr>" by (rule exI)
    with False show ?thesis by (subst (1 2 3) uris_loop.simps) simp
  next
    case True
    let ?a = "add_matching arr i (uris (arr ! i) ! j)"
    from add_matching_props [OF "1.prems", of "uris (arr ! i) ! j"]
    obtain e where a: "length ?a = length arr" "\<forall>m. m \<noteq> i \<longrightarrow> ?a ! m = arr ! m"
      "?a ! i = (arr ! i)\<lparr>uris := uris (arr ! i) @ e\<rparr>"
      by blast
    from a(1) "1.prems" have "i < length ?a" by simp
    from "1.IH" [OF _ this] True "1.prems"
    obtain e' where r: "length (uris_loop ?a i (Suc j)) = length ?a"
      "\<forall>m. m \<noteq> i \<longrightarrow> uris_loop ?a i (Suc j) ! m = ?a ! m"
      "uris_loop ?a i (Suc j) ! i = (?a ! i)\<lparr>uris := uris (?a ! i) @ e'\<rparr>"
      by auto
    have eq: "uris_loop arr i j = uris_loop ?a i (Suc j)"
      using True "1.prems" by (subst uris_loop.simps) simp
    have "uris_loop ?a i (Suc j) ! i = (arr ! i)\<lparr>uris := uris (arr ! i) @ (e @ e')\<rparr>"
      using r(3) a(3) by simp
    then have "\<exists>e. uris_loop ?a i (Suc j) ! i = (arr ! i)\<lparr>uris := uris (arr ! i) @ e\<rparr>"
      by (rule exI)
    with r(1,2) a(1,2) show ?thesis
      unfolding eq by simp
  qed
qed

lemma covered_add_matching:
  assumes i: "i < length arr" and j: "j < length (uris (arr ! i))" and c: "covered arr i j"
  shows "covered (add_matching arr i (uris (arr ! i) ! j)) i (Suc j)"
proof -
  let ?u = "uris (arr ! i) ! j"
  let ?a = "add_matching arr i ?u"
  from add_matching_props [OF i, of ?u]
  obtain e where a: "length ?a = length arr" "\<forall>m. m \<noteq> i \<longrightarrow> ?a ! m = arr ! m"
    "?a ! i = (arr ! i)\<lparr>uris := uris (arr ! i) @ e\<rparr>"
    "\<forall>k < length arr. ?u \<in> set (uris (arr ! k)) \<longrightarrow> set (uris (arr ! k)) \<subseteq> set (uris (arr ! i) @ e)"
    by blast
  have ui: "uris (?a ! i) = uris (arr ! i) @ e" using a(3) by simp
  show ?thesis
    unfolding covered_def
  proof (intro allI impI)
    fix j' m
    assume j': "j' < Suc j" "j' < length (uris (?a ! i))" and m: "m < length ?a"
      and mem: "uris (?a ! i) ! j' \<in> set (uris (?a ! m))"
    have j'': "j' < length (uris (arr ! i))" using j' j by simp
    then have el: "uris (?a ! i) ! j' = uris (arr ! i) ! j'" by (simp add: ui nth_append)
    show "set (uris (?a ! m)) \<subseteq> set (uris (?a ! i))"
    proof (cases "m = i")
      case True
      then show ?thesis by simp
    next
      case False
      with a(2) have same: "?a ! m = arr ! m" by simp
      from m a(1) have m': "m < length arr" by simp
      show ?thesis
      proof (cases "j' = j")
        case True
        with mem el same have "?u \<in> set (uris (arr ! m))" by simp
        with a(4) m' have "set (uris (arr ! m)) \<subseteq> set (uris (arr ! i) @ e)" by blast
        then show ?thesis by (simp only: same ui)
      next
        case False
        with j' have "j' < j" by simp
        with c j'' m' mem el same have "set (uris (arr ! m)) \<subseteq> set (uris (arr ! i))"
          unfolding covered_def by simp
        then show ?thesis by (auto simp: same ui)
      qed
    qed
  qed
qed

lemma uris_loop_saturates_own:
  "i < length arr \<Longrightarrow> covered arr i j \<Longrightarrow>
   saturated (set (uris (uris_loop arr i j ! i))) (uris_loop arr i j)"
proof (induction arr i j rule: uris_loop.induct)
  case (1 arr i j)
  show ?case
  proof (cases "j < length (uris (arr ! i))")
    case True
    let ?a = "add_matching arr i (uris (arr ! i) ! j)"
    have eq: "uris_loop arr i j = uris_loop ?a i (Suc j)"
      using True "1.prems" by (subst uris_loop.simps) simp
    have "covered ?a i (Suc j)"
      using "1.prems" True by (intro covered_add_matching)
    moreover have "i < length ?a" using "1.prems" by simp
    ultimately show ?thesis
      unfolding eq using "1.IH" True "1.prems"(1) by blast
  next
    case False
    then have eq: "uris_loop arr i j = arr" by (subst uris_loop.simps) simp
    show ?thesis
      unfolding eq saturated_def
    proof (intro allI impI)
      fix m assume m: "m < length arr"
      show "set (uris (arr ! m)) \<subseteq> set (uris (arr ! i)) \<or> set (uris (arr ! m)) \<inter> set (uris (arr ! i)) = {}"
      proof (cases "set (uris (arr ! m)) \<inter> set (uris (arr ! i)) = {}")
        case True
        then show ?thesis by simp
      next
        case False
        then obtain x where x: "x \<in> set (uris (arr ! m))" "x \<in> set (uris (arr ! i))" by blast
        from x(2) obtain j' where j': "j' < length (uris (arr ! i))" "uris (arr ! i) ! j' = x"
          by (auto simp: in_set_conv_nth)
        with \<open>\<not> j < length (uris (arr ! i))\<close> have "j' < j" by simp
        with "1.prems"(2) j' m x(1) have "set (uris (arr ! m)) \<subseteq> set (uris (arr ! i))"
          unfolding covered_def by blast
        then show ?thesis by simp
      qed
    qed
  qed
qed

lemma extends_refl: "extends a a"
proof -
  have "a ! k = (a ! k)\<lparr>uris := uris (a ! k) @ []\<rparr>" for k by simp
  then have "\<exists>e. a ! k = (a ! k)\<lparr>uris := uris (a ! k) @ e\<rparr>" for k by (rule exI)
  then show ?thesis by (simp add: extends_def)
qed

lemma extends_trans:
  assumes "extends a b" "extends b c"
  shows "extends a c"
  unfolding extends_def
proof (intro conjI allI impI)
  show "length c = length a" using assms by (simp add: extends_def)
next
  fix k assume k: "k < length a"
  with assms(1) obtain e where e: "b ! k = (a ! k)\<lparr>uris := uris (a ! k) @ e\<rparr>"
    unfolding extends_def by blast
  from k assms obtain e' where e': "c ! k = (b ! k)\<lparr>uris := uris (b ! k) @ e'\<rparr>"
    unfolding extends_def by force
  have "c ! k = (a ! k)\<lparr>uris := uris (a ! k) @ (e @ e')\<rparr>"
    by (simp add: e e')
  then show "\<exists>e. c ! k = (a ! k)\<lparr>uris := uris (a ! k) @ e\<rparr>" by (rule exI)
qed

lemma extends_uris_loop: "i < length arr \<Longrightarrow> extends arr (uris_loop arr i j)"
proof -
  assume i: "i < length arr"
  from uris_loop_frame [OF i, of j]
  obtain e where f: "length (uris_loop arr i j) = length arr"
    "\<forall>m. m \<noteq> i \<longrightarrow> uris_loop arr i j ! m = arr ! m"
    "uris_loop arr i j ! i = (arr ! i)\<lparr>uris := uris (arr ! i) @ e\<rparr>"
    by blast
  show ?thesis
    unfolding extends_def
  proof (intro conjI allI impI)
    show "length (uris_loop arr i j) = length arr" by (rule f(1))
  next
    fix k assume "k < length arr"
    show "\<exists>e. uris_loop arr i j ! k = (arr ! k)\<lparr>uris := uris (arr ! k) @ e\<rparr>"
    proof (cases "k = i")
      case True
      with f(3) show ?thesis by blast
    next
      case False
      with f(2) have "uris_loop arr i j ! k = (arr ! k)\<lparr>uris := uris (arr ! k) @ []\<rparr>" by simp
      then show ?thesis by (rule exI)
    qed
  qed
qed

lemma normalize_upto:
  "i \<le> length arr \<Longrightarrow>
   extends arr (foldl (\<lambda>a i. uris_loop a i 0) arr [0..<i])
   \<and> (\<forall>k < i. saturated (set (uris (foldl (\<lambda>a i. uris_loop a i 0) arr [0..<i] ! k)))
                   (foldl (\<lambda>a i. uris_loop a i 0) arr [0..<i]))"
proof (induction i)
  case 0
  then show ?case by (simp add: extends_refl)
next
  case (Suc i)
  let ?r = "foldl (\<lambda>a i. uris_loop a i 0) arr [0..<i]"
  let ?r' = "uris_loop ?r i 0"
  from Suc have ih: "extends arr ?r" "\<forall>k < i. saturated (set (uris (?r ! k))) ?r"
    by simp_all
  from ih(1) Suc.prems have i: "i < length ?r" by (simp add: extends_def)
  have step: "foldl (\<lambda>a i. uris_loop a i 0) arr [0..<Suc i] = ?r'" by simp
  have ext: "extends arr ?r'"
    using ih(1) extends_uris_loop [OF i] by (rule extends_trans)
  have sat: "saturated (set (uris (?r' ! k))) ?r'" if k: "k < Suc i" for k
  proof (cases "k = i")
    case True
    have "covered ?r i 0" by (simp add: covered_def)
    with i show ?thesis unfolding True by (rule uris_loop_saturates_own)
  next
    case False
    with k have "k < i" by simp
    with ih(2) have "saturated (set (uris (?r ! k))) ?r" by blast
    then have "saturated (set (uris (?r ! k))) ?r'" by (rule saturated_uris_loop)
    moreover from uris_loop_frame [OF i, of 0] False have "?r' ! k = ?r ! k" by blast
    ultimately show ?thesis by simp
  qed
  from ext sat show ?case unfolding step by blast
qed

text \<open>
  After \<open>normalizeUris\<close> each entry keeps its own identifiers in front, and two entries
  that share an identifier have the same set of identifiers.
\<close>

lemma normalizeUris_extends: "extends arr (normalizeUris arr)"
  using normalize_upto [of "length arr" arr] by (simp add: normalizeUris_def)

lemma normalizeUris_length [simp]: "length (normalizeUris arr) = length arr"
  using normalizeUris_extends [of arr] by (simp add: extends_def)

lemma normalizeUris_closed: "closed (normalizeUris arr)"
  unfolding closed_def
proof (intro allI impI)
  fix k m
  assume k: "k < length (normalizeUris arr)" and m: "m < length (normalizeUris arr)"
    and ne: "set (uris (normalizeUris arr ! k)) \<inter> set (uris (normalizeUris arr ! m)) \<noteq> {}"
  let ?r = "normalizeUris arr"
  from normalize_upto [of "length arr" arr]
  have sat: "\<And>k. k < length arr \<Longrightarrow> saturated (set (uris (?r ! k))) ?r"
    by (simp add: normalizeUris_def)
  from sat [of k] k m ne have "set (uris (?r ! m)) \<subseteq> set (uris (?r ! k))"
    unfolding saturated_def by auto
  moreover from sat [of m] k m ne have "set (uris (?r ! k)) \<subseteq> set (uris (?r ! m))"
    unfolding saturated_def by auto
  ultimately show "set (uris (?r ! k)) = set (uris (?r ! m))" by blast
qed

lemma final_entry_simps [simp]:
  "uris (final_entry arr k) = uris (arr ! k)"
  "index (final_entry arr k) = index (arr ! k)"
  "item (final_entry arr k) = item (arr ! k)"
  by (simp_all add: final_entry_def)

lemma map_index_filter:
  assumes "\<forall>k < length es. index (es ! k) = k"
  shows "map index (filter P es) = filter (\<lambda>k. P (es ! k)) [0..<length es]"
  using assms
proof (induction es rule: rev_induct)
  case Nil
  then show ?case by simp
next
  case (snoc x xs)
  have ix: "index x = length xs"
    using snoc.prems [rule_format, of "length xs"] by simp
  have "\<forall>k < length xs. index (xs ! k) = k"
  proof (intro allI impI)
    fix k assume "k < length xs"
    with snoc.prems [rule_format, of k] show "index (xs ! k) = k" by (simp add: nth_append)
  qed
  from snoc.IH [OF this] have ih: "map index (filter P xs) = filter (\<lambda>k. P (xs ! k)) [0..<length xs]" .
  have "filter (\<lambda>k. P ((xs @ [x]) ! k)) [0..<length xs] = filter (\<lambda>k. P (xs ! k)) [0..<length xs]"
    by (rule filter_cong) (simp_all add: nth_append)
  with ih ix show ?case by simp
qed

lemma dedup_step_inv:
  assumes cl: "closed arr" and wi: "well_indexed arr" and i: "i < length arr"
    and inv: "dedup_inv arr st i s"
  shows "dedup_inv arr st (Suc i) (dedup_step s i)"
proof -
  let ?n = "length arr"
  from inv have len: "length (entries s) = ?n"
    and D: "duplicateIndices s = dups_upto arr i"
    and ent: "\<And>k. k < ?n \<Longrightarrow> entries s ! k = (if k < i then final_entry arr k else arr ! k)"
    and obj: "objects s = foldl (annotate arr) st (filter (is_head arr) [0..<i])"
    by (simp_all add: dedup_inv_def)
  have cur: "entries s ! i = arr ! i" using ent [OF i] by simp
  have idx: "index (arr ! k) = k" if "k < ?n" for k
    using wi that by (simp add: well_indexed_def)
  have e_uris: "uris (entries s ! k) = uris (arr ! k)" if "k < ?n" for k
    using ent [OF that] by simp
  have e_index: "index (entries s ! k) = k" if "k < ?n" for k
    using ent [OF that] idx [OF that] by simp
  have up: "[0..<Suc i] = [0..<i] @ [i]" by simp
  show ?thesis
  proof (cases "i \<in> dups_upto arr i \<or> uris (arr ! i) = []")
    case True
    then have same: "dedup_step s i = s"
      by (auto simp: dedup_step_def Let_def cur idx [OF i] D)
    have nh: "\<not> is_head arr i"
      using True by (auto simp: is_head_def dups_upto_def)
    have "dups_upto arr (Suc i) = dups_upto arr i"
    proof
      show "dups_upto arr i \<subseteq> dups_upto arr (Suc i)"
        by (auto simp: dups_upto_def intro: less_SucI)
      show "dups_upto arr (Suc i) \<subseteq> dups_upto arr i"
      proof
        fix m assume "m \<in> dups_upto arr (Suc i)"
        then obtain k where m: "m < ?n" "uris (arr ! m) \<noteq> []" "k < Suc i" "k < m"
          "set (uris (arr ! k)) = set (uris (arr ! m))"
          by (auto simp: dups_upto_def)
        show "m \<in> dups_upto arr i"
        proof (cases "k = i")
          case False
          with m have "k < i" by simp
          with m show ?thesis unfolding dups_upto_def by blast
        next
          case ki: True
          from True show ?thesis
          proof
            assume "uris (arr ! i) = []"
            with m ki show ?thesis by simp
          next
            assume "i \<in> dups_upto arr i"
            then obtain k' where "k' < i" "set (uris (arr ! k')) = set (uris (arr ! i))"
              by (auto simp: dups_upto_def)
            with m ki show ?thesis by (auto simp: dups_upto_def)
          qed
        qed
      qed
    qed
    moreover have "entries s ! k = (if k < Suc i then final_entry arr k else arr ! k)" if "k < ?n" for k
      using ent [OF that] nh by (cases "k = i") (auto simp: final_entry_def less_Suc_eq)
    ultimately show ?thesis
      unfolding same dedup_inv_def using len D obj nh by (simp add: up)
  next
    case False
    then have nd: "i \<notin> dups_upto arr i" and ne: "uris (arr ! i) \<noteq> []" by simp_all
    have h: "is_head arr i"
      using nd ne i by (auto simp: is_head_def dups_upto_def)
    let ?u = "hd (uris (arr ! i))"
    have u: "?u \<in> set (uris (arr ! i))" using ne by simp
    let ?P = "\<lambda>e. ?u \<in> set (uris e) \<and> index e \<notin> duplicateIndices s"
    let ?matching = "filter ?P (entries s)"
    have match_iff: "?P (entries s ! k) \<longleftrightarrow> set (uris (arr ! k)) = set (uris (arr ! i))"
      if k: "k < ?n" for k
    proof
      assume "?P (entries s ! k)"
      then have "?u \<in> set (uris (arr ! k))" using e_uris [OF k] by simp
      with u have "set (uris (arr ! k)) \<inter> set (uris (arr ! i)) \<noteq> {}" by blast
      with cl k i show "set (uris (arr ! k)) = set (uris (arr ! i))"
        by (simp add: closed_def)
    next
      assume eq: "set (uris (arr ! k)) = set (uris (arr ! i))"
      have "k \<notin> dups_upto arr i"
      proof
        assume "k \<in> dups_upto arr i"
        then obtain k' where "k' < i" "set (uris (arr ! k')) = set (uris (arr ! k))"
          by (auto simp: dups_upto_def)
        with eq h show False by (auto simp: is_head_def)
      qed
      with eq u show "?P (entries s ! k)"
        by (simp add: e_uris [OF k] e_index [OF k] D)
    qed
    have "map index ?matching = filter (\<lambda>k. ?P (entries s ! k)) [0..<length (entries s)]"
      by (rule map_index_filter) (simp add: len e_index)
    also have "\<dots> = cluster_of arr i"
      unfolding cluster_of_def len by (rule filter_cong) (simp_all add: match_iff)
    finally have mi: "map index ?matching = cluster_of arr i" .
    then have "length (map index ?matching) = length (cluster_of arr i)" by simp
    then have ml: "length ?matching = length (cluster_of arr i)" by simp
    have "map index (filter (\<lambda>e. i < index e) ?matching) = filter (\<lambda>k. i < k) (map index ?matching)"
      by (simp add: filter_map comp_def)
    then have later: "set (map index (filter (\<lambda>e. i < index e) ?matching))
        = {k. k < ?n \<and> i < k \<and> set (uris (arr ! k)) = set (uris (arr ! i))}"
      unfolding mi by (auto simp: cluster_of_def)
    have step: "dedup_step s i =
        \<lparr>entries = (entries s)[i := (arr ! i)\<lparr>count := length (cluster_of arr i),
                                           indices := Some (cluster_of arr i)\<rparr>],
         duplicateIndices = dups_upto arr i
            \<union> {k. k < ?n \<and> i < k \<and> set (uris (arr ! k)) = set (uris (arr ! i))},
         objects = annotate arr (objects s) i\<rparr>"
    proof -
      have nd': "(i \<in> duplicateIndices s) = False" using nd D by simp
      have ne': "(uris (arr ! i) = []) = False" using ne by simp
      show ?thesis
        unfolding dedup_step_def Let_def
        by (simp only: cur idx [OF i] nd' ne' if_False ml mi later annotate_def D [symmetric])
    qed
    have dset: "dups_upto arr i \<union> {k. k < ?n \<and> i < k \<and> set (uris (arr ! k)) = set (uris (arr ! i))}
        = dups_upto arr (Suc i)"
    proof -
      have "uris (arr ! k) \<noteq> []" if "set (uris (arr ! k)) = set (uris (arr ! i))" for k
        using that ne by auto
      then show ?thesis
        by (auto simp: dups_upto_def less_Suc_eq)
    qed
    have ents: "(entries s)[i := (arr ! i)\<lparr>count := length (cluster_of arr i),
                                           indices := Some (cluster_of arr i)\<rparr>] ! k
        = (if k < Suc i then final_entry arr k else arr ! k)" if "k < ?n" for k
      using ent [OF that] h i len
      by (cases "k = i") (auto simp: final_entry_def less_Suc_eq nth_list_update)
    show ?thesis
      unfolding step dedup_inv_def using len dset ents obj h
      by (simp add: up)
  qed
qed

lemma dedup_loop_inv:
  assumes "closed arr" "well_indexed arr" "i \<le> length arr"
  shows "dedup_inv arr st i
           (foldl dedup_step \<lparr>entries = arr, duplicateIndices = {}, objects = st\<rparr> [0..<i])"
  using assms(3)
proof (induction i)
  case 0
  show ?case by (simp add: dedup_inv_def dups_upto_def)
next
  case (Suc i)
  then have "dedup_inv arr st i
      (foldl dedup_step \<lparr>entries = arr, duplicateIndices = {}, objects = st\<rparr> [0..<i])"
    by simp
  with assms(1,2) Suc.prems show ?case
    by (simp add: dedup_step_inv)
qed

lemma performDeduplication_char:
  assumes "closed arr" "well_indexed arr"
  shows "performDeduplication arr st =
           (map (final_entry arr) (filter (kept arr) [0..<length arr]),
            foldl (annotate arr) st (filter (is_head arr) [0..<length arr]))"
proof -
  let ?n = "length arr"
  let ?s = "foldl dedup_step \<lparr>entries = arr, duplicateIndices = {}, objects = st\<rparr> [0..<?n]"
  from dedup_loop_inv [OF assms, of ?n st]
  have len: "length (entries ?s) = ?n"
    and D: "duplicateIndices ?s = dups_upto arr ?n"
    and ent: "\<And>k. k < ?n \<Longrightarrow> entries ?s ! k = final_entry arr k"
    and obj: "objects ?s = foldl (annotate arr) st (filter (is_head arr) [0..<?n])"
    by (simp_all add: dedup_inv_def)
  have es: "entries ?s = map (final_entry arr) [0..<?n]"
    by (rule nth_equalityI) (simp_all add: len ent)
  have k: "(index (final_entry arr k) \<notin> dups_upto arr ?n) = kept arr k" if "k \<in> set [0..<?n]" for k
  proof -
    from that have kn: "k < ?n" by simp
    with assms(2) have "index (arr ! k) = k" by (simp add: well_indexed_def)
    moreover have "(k \<notin> dups_upto arr ?n) = kept arr k"
      using kn by (auto simp: dups_upto_def kept_def is_head_def)
    ultimately show ?thesis by simp
  qed
  have "filter (\<lambda>e. index e \<notin> duplicateIndices ?s) (entries ?s)
      = map (final_entry arr) (filter (\<lambda>k. index (final_entry arr k) \<notin> dups_upto arr ?n) [0..<?n])"
    by (simp add: es D filter_map comp_def)
  also have "filter (\<lambda>k. index (final_entry arr k) \<notin> dups_upto arr ?n) [0..<?n]
      = filter (kept arr) [0..<?n]"
    by (rule filter_cong) (simp_all only: k)
  finally show ?thesis
    by (simp add: performDeduplication_def Let_def obj)
qed

lemma deduplicationArray_length [simp]: "length (deduplicationArray cs) = length cs"
  by (simp add: deduplicationArray_def)

lemma deduplicationArray_nth:
  "k < length cs \<Longrightarrow> deduplicationArray cs ! k =
     \<lparr>item = c_itemData (cs ! k), uris = uris_of (cs ! k), count = 1, index = k,
      indices = None, originalCite = cs ! k\<rparr>"
  by (simp add: deduplicationArray_def uris_of_def)

lemma normalized_nth:
  assumes "k < length cs"
  shows "\<exists>e. normalizeUris (deduplicationArray cs) ! k =
     \<lparr>item = c_itemData (cs ! k), uris = uris_of (cs ! k) @ e, count = 1, index = k,
      indices = None, originalCite = cs ! k\<rparr>"
proof -
  from normalizeUris_extends [of "deduplicationArray cs"] assms
  obtain e where "normalizeUris (deduplicationArray cs) ! k =
      (deduplicationArray cs ! k)\<lparr>uris := uris (deduplicationArray cs ! k) @ e\<rparr>"
    unfolding extends_def by force
  with assms have "normalizeUris (deduplicationArray cs) ! k =
     \<lparr>item = c_itemData (cs ! k), uris = uris_of (cs ! k) @ e, count = 1, index = k,
      indices = None, originalCite = cs ! k\<rparr>"
    by (simp add: deduplicationArray_nth)
  then show ?thesis by (rule exI)
qed

lemma normalized_fields:
  assumes "k < length cs"
  shows "item (normalizeUris (deduplicationArray cs) ! k) = c_itemData (cs ! k)"
    and "count (normalizeUris (deduplicationArray cs) ! k) = 1"
    and "index (normalizeUris (deduplicationArray cs) ! k) = k"
    and "indices (normalizeUris (deduplicationArray cs) ! k) = None"
    and "set (uris_of (cs ! k)) \<subseteq> set (uris (normalizeUris (deduplicationArray cs) ! k))"
  using normalized_nth [OF assms] by auto

lemma normalized_well_indexed: "well_indexed (normalizeUris (deduplicationArray cs))"
  by (simp add: well_indexed_def normalized_fields)

lemma head_exists:
  assumes "m < length arr" "uris (arr ! m) \<noteq> []"
  shows "\<exists>k \<le> m. is_head arr k \<and> set (uris (arr ! k)) = set (uris (arr ! m))"
proof -
  define k where "k = (LEAST k. set (uris (arr ! k)) = set (uris (arr ! m)))"
  have eq: "set (uris (arr ! k)) = set (uris (arr ! m))"
    unfolding k_def by (rule LeastI [of _ m]) simp
  have le: "k \<le> m" unfolding k_def by (rule Least_le) simp
  have "set (uris (arr ! j)) \<noteq> set (uris (arr ! m))" if "j < k" for j
    using not_less_Least [of j "\<lambda>k. set (uris (arr ! k)) = set (uris (arr ! m))"] that
    by (simp add: k_def)
  moreover from eq assms(2) have "uris (arr ! k) \<noteq> []" by auto
  ultimately have "is_head arr k" by (simp add: is_head_def eq)
  with le eq show ?thesis by blast
qed

lemma heads_same_uris:
  assumes "is_head arr k" "is_head arr k'" "set (uris (arr ! k)) = set (uris (arr ! k'))"
  shows "k = k'"
proof (rule ccontr)
  assume "k \<noteq> k'"
  then consider "k < k'" | "k' < k" by linarith
  then show False
    using assms by cases (auto simp: is_head_def)
qed

lemma cluster_counts:
  assumes ones: "\<forall>k < length arr. count (arr ! k) = 1"
  shows "sum_list (map (\<lambda>k. count (final_entry arr k)) (filter (kept arr) [0..<length arr])) = length arr"
proof -
  let ?n = "length arr"
  let ?c = "\<lambda>k. count (final_entry arr k)"
  define E where "E = {k. k < ?n \<and> uris (arr ! k) = []}"
  define H where "H = {k. k < ?n \<and> is_head arr k}"
  define NE where "NE = {k. k < ?n \<and> uris (arr ! k) \<noteq> []}"
  define C where "C = (\<lambda>k. {m. m < ?n \<and> set (uris (arr ! m)) = set (uris (arr ! k))})"
  have fin: "finite E" "finite H" "finite NE" "\<And>k. finite (C k)"
    by (simp_all add: E_def H_def NE_def C_def)
  have disj: "E \<inter> H = {}" by (auto simp: E_def H_def is_head_def)
  have "sum_list (map ?c (filter (kept arr) [0..<?n])) = sum ?c (set (filter (kept arr) [0..<?n]))"
    by (rule sum_list_distinct_conv_sum_set) simp
  also have "set (filter (kept arr) [0..<?n]) = E \<union> H"
    by (auto simp: E_def H_def kept_def)
  also have "sum ?c (E \<union> H) = sum ?c E + sum ?c H"
    using fin disj by (intro sum.union_disjoint)
  also have "sum ?c E = card E"
  proof -
    have "?c k = 1" if "k \<in> E" for k
      using that ones by (simp add: E_def final_entry_def is_head_def)
    then show ?thesis by simp
  qed
  also have "sum ?c H = (\<Sum>k \<in> H. card (C k))"
  proof (rule sum.cong)
    fix k assume "k \<in> H"
    then have "?c k = length (cluster_of arr k)" by (simp add: H_def final_entry_def)
    also have "\<dots> = card (set (cluster_of arr k))"
      by (rule distinct_card [symmetric]) (simp add: cluster_of_def)
    also have "set (cluster_of arr k) = C k" by (auto simp: cluster_of_def C_def)
    finally show "?c k = card (C k)" .
  qed simp
  also have "(\<Sum>k \<in> H. card (C k)) = card (\<Union>k \<in> H. C k)"
  proof (rule card_UN_disjoint [symmetric])
    show "finite H" by (rule fin)
    show "\<forall>i \<in> H. finite (C i)" by (simp add: fin)
    show "\<forall>i \<in> H. \<forall>j \<in> H. i \<noteq> j \<longrightarrow> C i \<inter> C j = {}"
    proof (intro ballI impI)
      fix i j assume ij: "i \<in> H" "j \<in> H" "i \<noteq> j"
      show "C i \<inter> C j = {}"
      proof (rule ccontr)
        assume "C i \<inter> C j \<noteq> {}"
        then have "set (uris (arr ! i)) = set (uris (arr ! j))" by (auto simp: C_def)
        with ij heads_same_uris [of arr i j] show False by (simp add: H_def)
      qed
    qed
  qed
  also have "(\<Union>k \<in> H. C k) = NE"
  proof
    show "(\<Union>k \<in> H. C k) \<subseteq> NE"
      by (auto simp: H_def C_def NE_def is_head_def)
    show "NE \<subseteq> (\<Union>k \<in> H. C k)"
    proof
      fix m assume "m \<in> NE"
      then have m: "m < ?n" "uris (arr ! m) \<noteq> []" by (simp_all add: NE_def)
      from head_exists [OF m] obtain k where k: "k \<le> m" "is_head arr k"
        "set (uris (arr ! k)) = set (uris (arr ! m))" by blast
      with m have "k \<in> H" "m \<in> C k" by (simp_all add: H_def C_def)
      then show "m \<in> (\<Union>k \<in> H. C k)" by blast
    qed
  qed
  also have "card E + card NE = card (E \<union> NE)"
    using fin by (intro card_Un_disjoint [symmetric]) (auto simp: E_def NE_def)
  also have "E \<union> NE = {..<?n}" by (auto simp: E_def NE_def)
  finally show ?thesis by simp
qed

lemma clusters_char:
  "clusters cs st =
     map (final_entry (normalizeUris (deduplicationArray cs)))
       (filter (kept (normalizeUris (deduplicationArray cs))) [0..<length cs])"
  by (simp add: clusters_def performDeduplication_char normalizeUris_closed normalized_well_indexed)

text \<open>
  C1 (as amended). The occurrence counts of the clusters that the clustering step produces
  (\<open>performDeduplication\<close> on the normalized array) add up to the number of input entries.
  \<open>deduplicateCitations\<close> itself leaves out the clusters whose record is null before it
  returns: the counts of the list it returns and the counts of those clusters add up to the
  number of input entries.
\<close>

theorem occurrence_counts_sum:
  "sum_list (map count (clusters citations st)) = length citations
   \<and> sum_list (map r_count (fst (deduplicateCitations st citations)))
       + sum_list (map count (filter (\<lambda>e. item e = None) (clusters citations st)))
     = length citations"
proof -
  let ?arr = "normalizeUris (deduplicationArray citations)"
  have "\<forall>k < length ?arr. count (?arr ! k) = 1" by (simp add: normalized_fields)
  from cluster_counts [OF this]
  have total: "sum_list (map count (clusters citations st)) = length citations"
    by (simp add: clusters_char comp_def)
  have split: "sum_list (map count (filter (\<lambda>e. item e \<noteq> None) xs))
      + sum_list (map count (filter (\<lambda>e. item e = None) xs)) = sum_list (map count xs)" for xs
    by (induction xs) auto
  have "fst (deduplicateCitations st citations) =
      map (\<lambda>entry. \<lparr>r_itemData = item entry, r_uris = uris entry, r_count = count entry,
                     r_indices = (case indices entry of Some l \<Rightarrow> l | None \<Rightarrow> [index entry])\<rparr>)
        (filter (\<lambda>entry. item entry \<noteq> None) (clusters citations st))"
    by (cases "citations = []")
      (simp_all add: deduplicateCitations_def clusters_def Let_def split: prod.splits
        add: performDeduplication_def deduplicationArray_def normalizeUris_def)
  then have "sum_list (map r_count (fst (deduplicateCitations st citations)))
      = sum_list (map count (filter (\<lambda>e. item e \<noteq> None) (clusters citations st)))"
    by (simp add: comp_def)
  with total split [of "clusters citations st"] show ?thesis by simp
qed

lemma connected_same_uris:
  assumes "connected cs p q"
  shows "p < length cs \<and> q < length cs
       \<and> set (uris (normalizeUris (deduplicationArray cs) ! p))
         = set (uris (normalizeUris (deduplicationArray cs) ! q))
       \<and> (p = q \<or> uris (normalizeUris (deduplicationArray cs) ! q) \<noteq> [])"
  using assms
proof (induction rule: connected.induct)
  case (conn_refl p cs)
  then show ?case by simp
next
  case (conn_step cs p q r)
  let ?arr = "normalizeUris (deduplicationArray cs)"
  from conn_step have q: "q < length cs" and r: "r < length cs" by simp_all
  from conn_step.hyps(3) obtain x where x: "x \<in> set (uris_of (cs ! q))" "x \<in> set (uris_of (cs ! r))"
    by blast
  with normalized_fields(5) [OF q] normalized_fields(5) [OF r]
  have xs: "x \<in> set (uris (?arr ! q))" "x \<in> set (uris (?arr ! r))" by blast+
  then have "set (uris (?arr ! q)) \<inter> set (uris (?arr ! r)) \<noteq> {}" by blast
  with normalizeUris_closed [of "deduplicationArray cs"] q r
  have "set (uris (?arr ! q)) = set (uris (?arr ! r))"
    by (simp add: closed_def)
  moreover from xs have "uris (?arr ! r) \<noteq> []" by auto
  ultimately show ?case using conn_step r by simp
qed

lemma cluster_of_head:
  assumes "k < length arr" "is_head arr k"
  shows "k \<in> set (cluster_of arr k)" "\<forall>m \<in> set (cluster_of arr k). k \<le> m"
    "distinct (cluster_of arr k)"
proof -
  show "k \<in> set (cluster_of arr k)" using assms(1) by (simp add: cluster_of_def)
  show "distinct (cluster_of arr k)" by (simp add: cluster_of_def)
  show "\<forall>m \<in> set (cluster_of arr k). k \<le> m"
  proof
    fix m assume "m \<in> set (cluster_of arr k)"
    then have "set (uris (arr ! m)) = set (uris (arr ! k))" by (simp add: cluster_of_def)
    with assms(2) show "k \<le> m" by (auto simp: is_head_def not_le [symmetric])
  qed
qed

lemma head_in_clusters:
  assumes "k < length cs" "is_head (normalizeUris (deduplicationArray cs)) k"
  shows "final_entry (normalizeUris (deduplicationArray cs)) k \<in> set (clusters cs st)"
  using assms by (simp add: clusters_char kept_def)

lemma final_entry_head:
  assumes "is_head arr k"
  shows "indices (final_entry arr k) = Some (cluster_of arr k)"
    "count (final_entry arr k) = length (cluster_of arr k)"
  using assms by (simp_all add: final_entry_def)

text \<open>
  C2. Two entries whose identifier lists are connected through shared identifiers, directly
  or over other entries, are members of one cluster of the clustering step, and the count of
  that cluster is the number of its members. Three entries of which the first two share an
  identifier and the last two share an identifier form a single cluster of size 3.
\<close>

theorem shared_identifiers_same_cluster:
  "(connected citations p q \<longrightarrow>
      (\<exists>e \<in> set (clusters citations st).
         p \<in> cluster_members e \<and> q \<in> cluster_members e \<and> count e = card (cluster_members e)))
   \<and> (length citations = 3
       \<and> set (uris_of (citations ! 0)) \<inter> set (uris_of (citations ! 1)) \<noteq> {}
       \<and> set (uris_of (citations ! 1)) \<inter> set (uris_of (citations ! 2)) \<noteq> {} \<longrightarrow>
      map (\<lambda>e. (count e, indices e)) (clusters citations st) = [(3, Some [0, 1, 2])])"
proof (intro conjI impI)
  let ?arr = "normalizeUris (deduplicationArray citations)"
  assume c: "connected citations p q"
  from connected_same_uris [OF c]
  have p: "p < length citations" and q: "q < length citations"
    and eq: "set (uris (?arr ! p)) = set (uris (?arr ! q))"
    and pq: "p = q \<or> uris (?arr ! q) \<noteq> []"
    by simp_all
  show "\<exists>e \<in> set (clusters citations st).
         p \<in> cluster_members e \<and> q \<in> cluster_members e \<and> count e = card (cluster_members e)"
  proof (cases "uris (?arr ! p) = []")
    case True
    with eq pq have same: "q = p" by auto
    from True have nh: "\<not> is_head ?arr p" by (simp add: is_head_def)
    have "final_entry ?arr p \<in> set (clusters citations st)"
      using p True by (simp add: clusters_char kept_def)
    moreover have "cluster_members (final_entry ?arr p) = {p}"
      using nh p by (simp add: final_entry_def cluster_members_def normalized_fields)
    moreover have "count (final_entry ?arr p) = 1"
      using nh p by (simp add: final_entry_def normalized_fields)
    ultimately show ?thesis using same by auto
  next
    case False
    with head_exists [of p ?arr] p obtain k where k: "k \<le> p" "is_head ?arr k"
      "set (uris (?arr ! k)) = set (uris (?arr ! p))" by auto
    from k(1) p have kl: "k < length citations" by simp
    have mem: "cluster_members (final_entry ?arr k) = set (cluster_of ?arr k)"
      using k(2) by (simp add: cluster_members_def final_entry_head)
    have "p \<in> set (cluster_of ?arr k)" "q \<in> set (cluster_of ?arr k)"
      using p q k(3) eq by (simp_all add: cluster_of_def)
    moreover have "count (final_entry ?arr k) = card (set (cluster_of ?arr k))"
      using k(2) cluster_of_head(3) [OF _ k(2)] kl by (simp add: final_entry_head distinct_card)
    ultimately show ?thesis
      using head_in_clusters [OF kl k(2), of st] mem by auto
  qed
next
  let ?arr = "normalizeUris (deduplicationArray citations)"
  assume a: "length citations = 3
       \<and> set (uris_of (citations ! 0)) \<inter> set (uris_of (citations ! 1)) \<noteq> {}
       \<and> set (uris_of (citations ! 1)) \<inter> set (uris_of (citations ! 2)) \<noteq> {}"
  then have len: "length citations = 3" by simp
  from a have s01: "set (uris_of (citations ! 0)) \<inter> set (uris_of (citations ! 1)) \<noteq> {}"
    and s12: "set (uris_of (citations ! 1)) \<inter> set (uris_of (citations ! 2)) \<noteq> {}"
    by simp_all
  have c0: "connected citations 0 0" using len by (intro conn_refl) simp
  have c1: "connected citations 0 1"
    using c0 _ s01 by (rule conn_step) (simp add: len)
  have c2: "connected citations 0 2"
    using c1 _ s12 by (rule conn_step) (simp add: len)
  from connected_same_uris [OF c1] connected_same_uris [OF c2]
  have eq: "set (uris (?arr ! 1)) = set (uris (?arr ! 0))" "set (uris (?arr ! 2)) = set (uris (?arr ! 0))"
    and ne: "uris (?arr ! 1) \<noteq> []" "uris (?arr ! 2) \<noteq> []"
    by simp_all
  from eq ne have ne0: "uris (?arr ! 0) \<noteq> []" by auto
  have up: "[0..<3] = [0, 1, 2]" by (simp add: upt_rec)
  have h0: "is_head ?arr 0" using ne0 by (simp add: is_head_def)
  have h1: "\<not> is_head ?arr 1" using eq by (auto simp: is_head_def)
  have h2: "\<not> is_head ?arr (Suc (Suc 0))" using eq by (auto simp: is_head_def numeral_2_eq_2)
  have h2': "\<not> is_head ?arr 2" using h2 by (simp add: numeral_2_eq_2)
  have cl: "cluster_of ?arr 0 = [0, 1, 2]"
    using eq by (simp add: cluster_of_def len up)
  show "map (\<lambda>e. (count e, indices e)) (clusters citations st) = [(3, Some [0, 1, 2])]"
    using h0 h1 h2' ne ne0 by (simp add: clusters_char len up kept_def final_entry_head cl)
qed

lemma scenario_B_shares:
  "length scenario_B = 3
   \<and> set (uris_of (scenario_B ! 0)) \<inter> set (uris_of (scenario_B ! 1)) \<noteq> {}
   \<and> set (uris_of (scenario_B ! 1)) \<inter> set (uris_of (scenario_B ! 2)) \<noteq> {}"
  by (simp add: scenario_B_def cite_def uris_of_def)

lemma scenario_B_connected: "connected scenario_B 0 2"
proof -
  have "connected scenario_B 0 0"
    by (rule conn_refl) (simp add: scenario_B_def)
  then have "connected scenario_B 0 1"
    by (rule conn_step) (simp_all add: scenario_B_def cite_def uris_of_def)
  then show ?thesis
    by (rule conn_step) (simp_all add: scenario_B_def cite_def uris_of_def)
qed

theorem shared_identifiers_same_cluster_witness:
  "connected scenario_B 0 2
   \<and> (\<exists>e \<in> set (clusters scenario_B []).
         0 \<in> cluster_members e \<and> 2 \<in> cluster_members e \<and> count e = card (cluster_members e))
   \<and> length scenario_B = 3
   \<and> set (uris_of (scenario_B ! 0)) \<inter> set (uris_of (scenario_B ! 1)) \<noteq> {}
   \<and> set (uris_of (scenario_B ! 1)) \<inter> set (uris_of (scenario_B ! 2)) \<noteq> {}
   \<and> map (\<lambda>e. (count e, indices e)) (clusters scenario_B []) = [(3, Some [0, 1, 2])]"
  using shared_identifiers_same_cluster [of scenario_B 0 2 "[]"] scenario_B_connected scenario_B_shares
  by blast

section \<open>The record of a cluster\<close>

text \<open>
  One entry with an identifier and no record: \<open>deduplicateCitations\<close> returns the empty
  list, whose counts add up to 0, not 1.
\<close>

theorem null_record_cluster_dropped_counterexample:
  "fst (deduplicateCitations [] [cite [''u1''] None]) = []
   \<and> sum_list (map r_count (fst (deduplicateCitations [] [cite [''u1''] None])))
       \<noteq> length [cite [''u1''] None]"
  by code_simp

lemma deduplicateCitations_clusters:
  "fst (deduplicateCitations st citations) =
      map (\<lambda>entry. \<lparr>r_itemData = item entry, r_uris = uris entry, r_count = count entry,
                     r_indices = (case indices entry of Some l \<Rightarrow> l | None \<Rightarrow> [index entry])\<rparr>)
        (filter (\<lambda>entry. item entry \<noteq> None) (clusters citations st))"
  by (cases "citations = []")
    (simp_all add: deduplicateCitations_def clusters_def Let_def split: prod.splits
      add: performDeduplication_def deduplicationArray_def normalizeUris_def)

lemma hd_cluster_of:
  assumes "k < length arr" "is_head arr k"
  shows "hd (cluster_of arr k) = k"
proof -
  let ?P = "\<lambda>m. set (uris (arr ! m)) = set (uris (arr ! k))"
  have "[0..<length arr] = [0..<k] @ k # [Suc k..<length arr]"
    using assms(1) by (metis le0 upt_add_eq_append upt_conv_Cons less_imp_le_nat le_add_diff_inverse)
  moreover have "filter ?P [0..<k] = []"
    using assms(2) by (auto simp: is_head_def filter_empty_conv)
  ultimately show ?thesis by (simp add: cluster_of_def)
qed

text \<open>
  C3 (as amended). The record of a cluster is the \<^verbatim>\<open>itemData\<close> reference of its
  earliest member, the entry the cluster is built around, and it is null when that entry has
  none; the records of later members are not consulted. Every record that
  \<open>deduplicateCitations\<close> returns is the non-null record of its cluster's earliest member.
\<close>

theorem canonical_record_of_first_member:
  "(\<forall>e \<in> set (clusters citations st).
      index e < length citations
      \<and> item e = c_itemData (citations ! index e)
      \<and> index e \<in> cluster_members e
      \<and> (\<forall>m \<in> cluster_members e. index e \<le> m))
   \<and> (\<forall>r \<in> set (fst (deduplicateCitations st citations)).
        r_indices r \<noteq> []
        \<and> r_itemData r = c_itemData (citations ! hd (r_indices r))
        \<and> r_itemData r \<noteq> None
        \<and> (\<forall>m \<in> set (r_indices r). hd (r_indices r) \<le> m))"
proof -
  let ?arr = "normalizeUris (deduplicationArray citations)"
  have main: "index e < length citations \<and> item e = c_itemData (citations ! index e)
      \<and> index e \<in> cluster_members e \<and> (\<forall>m \<in> cluster_members e. index e \<le> m)
      \<and> (case indices e of Some l \<Rightarrow> l | None \<Rightarrow> [index e]) \<noteq> []
      \<and> hd (case indices e of Some l \<Rightarrow> l | None \<Rightarrow> [index e]) = index e
      \<and> set (case indices e of Some l \<Rightarrow> l | None \<Rightarrow> [index e]) = cluster_members e"
    if "e \<in> set (clusters citations st)" for e
  proof -
    from that obtain k where k: "k < length citations" "e = final_entry ?arr k"
      by (auto simp: clusters_char)
    have ix: "index e = k" and it: "item e = c_itemData (citations ! k)"
      using k by (simp_all add: normalized_fields)
    show ?thesis
    proof (cases "is_head ?arr k")
      case True
      have kl: "k < length ?arr" using k by simp
      from True k have ind: "indices e = Some (cluster_of ?arr k)" by (simp add: final_entry_head)
      from cluster_of_head [OF kl True] hd_cluster_of [OF kl True] ix it ind k(1)
      show ?thesis by (auto simp: cluster_members_def)
    next
      case False
      then have "indices e = None" using k by (simp add: final_entry_def normalized_fields)
      with ix it k(1) show ?thesis by (simp add: cluster_members_def)
    qed
  qed
  have part2: "r_indices r \<noteq> [] \<and> r_itemData r = c_itemData (citations ! hd (r_indices r))
      \<and> r_itemData r \<noteq> None \<and> (\<forall>m \<in> set (r_indices r). hd (r_indices r) \<le> m)"
    if "r \<in> set (fst (deduplicateCitations st citations))" for r
  proof -
    from that obtain e where e: "e \<in> set (clusters citations st)" "item e \<noteq> None"
      "r = \<lparr>r_itemData = item e, r_uris = uris e, r_count = count e,
            r_indices = (case indices e of Some l \<Rightarrow> l | None \<Rightarrow> [index e])\<rparr>"
      by (auto simp: deduplicateCitations_clusters)
    from main [OF e(1)] e(2,3) show ?thesis by simp
  qed
  from main part2 show ?thesis by blast
qed

text \<open>
  The cluster of \<open>null_first\<close> has the record of its first member, which is null, although
  its second member has a record; \<open>deduplicateCitations\<close> then returns nothing.
\<close>

theorem first_member_without_record_counterexample:
  "map (\<lambda>e. (item e, indices e)) (clusters null_first [item_X]) = [(None, Some [0, 1])]
   \<and> c_itemData (null_first ! 1) = Some 0
   \<and> fst (deduplicateCitations [item_X] null_first) = []"
  by code_simp

lemma scenario_A_clusters:
  "clusters scenario_A [item_X] =
     [\<lparr>item = Some 0, uris = [''u1''], count = 2, index = 0, indices = Some [0, 1],
       originalCite = cite [''u1''] (Some 0)\<rparr>]"
  by code_simp

lemma scenario_A_dedup:
  "deduplicateCitations [item_X] scenario_A =
     ([\<lparr>r_itemData = Some 0, r_uris = [''u1''], r_count = 2, r_indices = [0, 1]\<rparr>],
      [\<lparr>title = Some ''X'', author = None, note_field = Some ''Times cited: 2'', other = []\<rparr>])"
  by code_simp

theorem canonical_record_of_first_member_witness:
  "clusters scenario_A [item_X] =
     [\<lparr>item = Some 0, uris = [''u1''], count = 2, index = 0, indices = Some [0, 1],
       originalCite = cite [''u1''] (Some 0)\<rparr>]
   \<and> c_itemData (scenario_A ! 0) = Some 0
   \<and> fst (deduplicateCitations [item_X] scenario_A) =
       [\<lparr>r_itemData = Some 0, r_uris = [''u1''], r_count = 2, r_indices = [0, 1]\<rparr>]"
  using canonical_record_of_first_member [of scenario_A "[item_X]"]
  by (simp add: scenario_A_clusters scenario_A_dedup)

section \<open>Deduplicating a deduplicated list\<close>

lemma annotate_length [simp]: "length (annotate arr st k) = length st"
  by (simp add: annotate_def split: option.splits)

lemma foldl_annotate_length [simp]: "length (foldl (annotate arr) st ks) = length st"
  by (induction ks arbitrary: st) simp_all

lemma foldl_annotate_untouched:
  "\<forall>k \<in> set ks. item (arr ! k) \<noteq> Some a \<Longrightarrow> foldl (annotate arr) st ks ! a = st ! a"
proof (induction ks arbitrary: st)
  case Nil
  then show ?case by simp
next
  case (Cons k ks)
  then have "annotate arr st k ! a = st ! a"
    by (auto simp: annotate_def split: option.splits)
  with Cons show ?case by simp
qed

lemma foldl_annotate_written:
  assumes "distinct ks" "k \<in> set ks" "item (arr ! k) = Some a" "a < length st"
    and "\<forall>k' \<in> set ks. item (arr ! k') = Some a \<longrightarrow> k' = k"
  shows "foldl (annotate arr) st ks ! a = addCiteCountToItem (st ! a) (length (cluster_of arr k))"
proof -
  from assms(2) obtain xs ys where ks: "ks = xs @ k # ys" by (auto dest: split_list)
  with assms(1) have nk: "k \<notin> set xs" "k \<notin> set ys" by auto
  have xs: "\<forall>k' \<in> set xs. item (arr ! k') \<noteq> Some a"
    using assms(5) nk(1) ks by auto
  have ys: "\<forall>k' \<in> set ys. item (arr ! k') \<noteq> Some a"
    using assms(5) nk(2) ks by auto
  let ?s = "foldl (annotate arr) st xs"
  have "foldl (annotate arr) st ks ! a = annotate arr ?s k ! a"
    unfolding ks using foldl_annotate_untouched [OF ys] by simp
  also have "\<dots> = addCiteCountToItem (?s ! a) (length (cluster_of arr k))"
    using assms(3,4) by (simp add: annotate_def)
  also have "?s ! a = st ! a" by (rule foldl_annotate_untouched [OF xs])
  finally show ?thesis .
qed

lemma filter_upt_single: "i < n \<Longrightarrow> filter (\<lambda>k. k = i) [0..<n] = [i]"
  by (induction n) (auto simp: less_Suc_eq filter_empty_conv)

lemma add_matching_alone:
  assumes "disjoint_uris arr" "i < length arr" "u \<in> set (uris (arr ! i))"
  shows "add_matching arr i u = arr"
proof -
  have "filter (\<lambda>k. u \<in> set (uris (arr ! k))) [0..<length arr] = filter (\<lambda>k. k = i) [0..<length arr]"
  proof (rule filter_cong)
    fix k assume "k \<in> set [0..<length arr]"
    then have "k < length arr" by simp
    with assms show "(u \<in> set (uris (arr ! k))) = (k = i)"
      unfolding disjoint_uris_def by blast
  qed simp
  then have "filter (\<lambda>k. u \<in> set (uris (arr ! k))) [0..<length arr] = [i]"
    using assms(2) by (simp add: filter_upt_single)
  moreover have "add_uris arr i i = arr"
    by (simp add: add_uris_def absorb_def)
  ultimately show ?thesis by (simp add: add_matching_def)
qed

lemma uris_loop_alone: "disjoint_uris arr \<Longrightarrow> uris_loop arr i j = arr"
proof (induction arr i j rule: uris_loop.induct)
  case (1 arr i j)
  show ?case
  proof (cases "i < length arr \<and> j < length (uris (arr ! i))")
    case True
    then have "add_matching arr i (uris (arr ! i) ! j) = arr"
      using "1.prems" by (intro add_matching_alone) simp_all
    with True "1.IH" "1.prems" show ?thesis
      by (subst uris_loop.simps) simp
  next
    case False
    then show ?thesis by (subst uris_loop.simps) auto
  qed
qed

lemma normalizeUris_alone: "disjoint_uris arr \<Longrightarrow> normalizeUris arr = arr"
proof -
  assume d: "disjoint_uris arr"
  have "foldl (\<lambda>a i. uris_loop a i 0) arr ks = arr" for ks
    by (induction ks) (simp_all add: uris_loop_alone [OF d])
  then show ?thesis by (simp add: normalizeUris_def)
qed

text \<open>
  C4 (as amended). On a list whose identifier lists are pairwise disjoint and whose entries
  have records of their own in the store, \<open>deduplicateCitations\<close> returns the same record
  references in the same order, with the same identifiers, count 1 and the entry's own index.
  The records themselves are written to: every record of an entry that has an identifier gets
  another \<open>Times cited: 1\<close> line in front of its note, and only the records of entries
  without identifiers are unchanged.
\<close>

theorem rededuplication_of_disjoint_records:
  "(\<forall>i < length citations. \<forall>j < length citations. i \<noteq> j \<longrightarrow>
        set (uris_of (citations ! i)) \<inter> set (uris_of (citations ! j)) = {})
   \<and> (\<forall>i < length citations. \<exists>a < length st. c_itemData (citations ! i) = Some a)
   \<and> distinct (map c_itemData citations) \<longrightarrow>
   fst (deduplicateCitations st citations) =
     map (\<lambda>i. \<lparr>r_itemData = c_itemData (citations ! i), r_uris = uris_of (citations ! i),
                r_count = 1, r_indices = [i]\<rparr>) [0..<length citations]
   \<and> length (snd (deduplicateCitations st citations)) = length st
   \<and> (\<forall>i < length citations. \<forall>a. c_itemData (citations ! i) = Some a \<longrightarrow>
        snd (deduplicateCitations st citations) ! a =
          (if uris_of (citations ! i) = [] then st ! a else addCiteCountToItem (st ! a) 1))"
proof (intro impI)
  let ?n = "length citations"
  let ?arr = "deduplicationArray citations"
  assume a: "(\<forall>i < ?n. \<forall>j < ?n. i \<noteq> j \<longrightarrow>
        set (uris_of (citations ! i)) \<inter> set (uris_of (citations ! j)) = {})
   \<and> (\<forall>i < ?n. \<exists>a < length st. c_itemData (citations ! i) = Some a)
   \<and> distinct (map c_itemData citations)"
  then have disj: "\<And>i j. i < ?n \<Longrightarrow> j < ?n \<Longrightarrow> i \<noteq> j \<Longrightarrow>
        set (uris_of (citations ! i)) \<inter> set (uris_of (citations ! j)) = {}"
    and refs: "\<And>i. i < ?n \<Longrightarrow> \<exists>a < length st. c_itemData (citations ! i) = Some a"
    and dist: "distinct (map c_itemData citations)"
    by blast+
  have nth: "uris (?arr ! k) = uris_of (citations ! k)" "item (?arr ! k) = c_itemData (citations ! k)"
    "index (?arr ! k) = k" "count (?arr ! k) = 1" "indices (?arr ! k) = None" if "k < ?n" for k
    using that by (simp_all add: deduplicationArray_nth)
  have d: "disjoint_uris ?arr"
    unfolding disjoint_uris_def using disj by (simp add: nth)
  have norm: "normalizeUris ?arr = ?arr" by (rule normalizeUris_alone [OF d])
  have cl: "closed ?arr"
    using normalizeUris_closed [of ?arr] by (simp add: norm)
  have wi: "well_indexed ?arr" by (simp add: well_indexed_def nth)
  have head: "is_head ?arr k = (uris_of (citations ! k) \<noteq> [])" if k: "k < ?n" for k
  proof (cases "uris_of (citations ! k) = []")
    case True
    with k show ?thesis by (simp add: is_head_def nth)
  next
    case False
    have "set (uris (?arr ! m)) \<noteq> set (uris (?arr ! k))" if "m < k" for m
    proof
      assume eq: "set (uris (?arr ! m)) = set (uris (?arr ! k))"
      from that k have "m < ?n" "m \<noteq> k" by simp_all
      from disj [OF this(1) k this(2)] eq k \<open>m < ?n\<close> False show False
        by (simp add: nth)
    qed
    with False k show ?thesis by (simp add: is_head_def nth)
  qed
  have kept_all: "filter (kept ?arr) [0..<?n] = [0..<?n]"
    by (rule filter_True) (auto simp: kept_def head nth)
  have cluster: "cluster_of ?arr k = [k]" if k: "k < ?n" and ne: "uris_of (citations ! k) \<noteq> []" for k
  proof -
    have "filter (\<lambda>m. set (uris (?arr ! m)) = set (uris (?arr ! k))) [0..<?n]
        = filter (\<lambda>m. m = k) [0..<?n]"
    proof (rule filter_cong)
      fix m assume "m \<in> set [0..<?n]"
      then have m: "m < ?n" by simp
      show "(set (uris (?arr ! m)) = set (uris (?arr ! k))) = (m = k)"
      proof (cases "m = k")
        case True
        then show ?thesis by simp
      next
        case False
        from disj [OF m k False] ne k m False show ?thesis by (auto simp: nth)
      qed
    qed simp
    with k show ?thesis by (simp add: cluster_of_def filter_upt_single)
  qed
  have cl_all: "clusters citations st = map (final_entry ?arr) [0..<?n]"
    using clusters_char [of citations st] by (simp add: norm kept_all)
  have items: "item (final_entry ?arr k) \<noteq> None" if "k < ?n" for k
    using refs [OF that] that by (auto simp: nth)
  have "filter (\<lambda>entry. item entry \<noteq> None) (map (final_entry ?arr) [0..<?n]) = map (final_entry ?arr) [0..<?n]"
  proof (rule filter_True, rule ballI)
    fix e assume "e \<in> set (map (final_entry ?arr) [0..<?n])"
    then obtain k where "k < ?n" "e = final_entry ?arr k" by auto
    with items show "item e \<noteq> None" by blast
  qed
  then have res: "fst (deduplicateCitations st citations) =
      map (\<lambda>k. \<lparr>r_itemData = item (final_entry ?arr k), r_uris = uris (final_entry ?arr k),
                 r_count = count (final_entry ?arr k),
                 r_indices = (case indices (final_entry ?arr k) of Some l \<Rightarrow> l
                              | None \<Rightarrow> [index (final_entry ?arr k)])\<rparr>) [0..<?n]"
    by (simp add: deduplicateCitations_clusters cl_all comp_def)
  have part1: "fst (deduplicateCitations st citations) =
     map (\<lambda>i. \<lparr>r_itemData = c_itemData (citations ! i), r_uris = uris_of (citations ! i),
                r_count = 1, r_indices = [i]\<rparr>) [0..<?n]"
    unfolding res
  proof (rule map_cong)
    fix k assume "k \<in> set [0..<?n]"
    then have k: "k < ?n" by simp
    show "\<lparr>r_itemData = item (final_entry ?arr k), r_uris = uris (final_entry ?arr k),
            r_count = count (final_entry ?arr k),
            r_indices = (case indices (final_entry ?arr k) of Some l \<Rightarrow> l
                         | None \<Rightarrow> [index (final_entry ?arr k)])\<rparr>
        = \<lparr>r_itemData = c_itemData (citations ! k), r_uris = uris_of (citations ! k),
            r_count = 1, r_indices = [k]\<rparr>"
      using k cluster [OF k] by (simp add: final_entry_def head nth)
  qed simp
  have store: "snd (deduplicateCitations st citations)
      = foldl (annotate ?arr) st (filter (is_head ?arr) [0..<?n])"
    using refs [of 0]
    by (cases "citations = []")
      (simp_all add: deduplicateCitations_def Let_def norm performDeduplication_char [OF cl wi]
        split: prod.splits)
  have part2: "length (snd (deduplicateCitations st citations)) = length st"
    by (simp add: store)
  have part3: "snd (deduplicateCitations st citations) ! a =
          (if uris_of (citations ! i) = [] then st ! a else addCiteCountToItem (st ! a) 1)"
    if i: "i < ?n" and ia: "c_itemData (citations ! i) = Some a" for i a
  proof -
    have uniq: "k = i" if "k < ?n" "item (?arr ! k) = Some a" for k
    proof -
      from that ia i have "map c_itemData citations ! k = map c_itemData citations ! i"
        by (simp add: nth)
      moreover have "k < length (map c_itemData citations)" "i < length (map c_itemData citations)"
        using that(1) i by simp_all
      ultimately show ?thesis using dist nth_eq_iff_index_eq by blast
    qed
    from refs [OF i] ia have al: "a < length st" by auto
    show ?thesis
    proof (cases "uris_of (citations ! i) = []")
      case True
      have "\<forall>k \<in> set (filter (is_head ?arr) [0..<?n]). item (?arr ! k) \<noteq> Some a"
        using uniq True head by auto
      then show ?thesis by (simp add: store True foldl_annotate_untouched)
    next
      case False
      have "foldl (annotate ?arr) st (filter (is_head ?arr) [0..<?n]) ! a
          = addCiteCountToItem (st ! a) (length (cluster_of ?arr i))"
      proof (rule foldl_annotate_written)
        show "distinct (filter (is_head ?arr) [0..<?n])" by simp
        show "i \<in> set (filter (is_head ?arr) [0..<?n])" using i False by (simp add: head)
        show "item (?arr ! i) = Some a" using i ia by (simp add: nth)
        show "a < length st" by (rule al)
        show "\<forall>k' \<in> set (filter (is_head ?arr) [0..<?n]). item (?arr ! k') = Some a \<longrightarrow> k' = i"
          using uniq by simp
      qed
      with False i show ?thesis by (simp add: store cluster)
    qed
  qed
  from part1 part2 part3 show "fst (deduplicateCitations st citations) =
     map (\<lambda>i. \<lparr>r_itemData = c_itemData (citations ! i), r_uris = uris_of (citations ! i),
                r_count = 1, r_indices = [i]\<rparr>) [0..<?n]
   \<and> length (snd (deduplicateCitations st citations)) = length st
   \<and> (\<forall>i < ?n. \<forall>a. c_itemData (citations ! i) = Some a \<longrightarrow>
        snd (deduplicateCitations st citations) ! a =
          (if uris_of (citations ! i) = [] then st ! a else addCiteCountToItem (st ! a) 1))"
    by blast
qed

text \<open>
  A deduplicated list of one record annotated with count 1: running the deduplication again
  returns the record with a second count line in its note.
\<close>

theorem rededuplication_changes_note_counterexample:
  "deduplicateCitations [cited_once] [cite [''u1''] (Some 0)] =
     ([\<lparr>r_itemData = Some 0, r_uris = [''u1''], r_count = 1, r_indices = [0]\<rparr>],
      [\<lparr>title = Some ''X'', author = None,
        note_field = Some (''Times cited: 1'' @ [nl] @ ''Times cited: 1''), other = []\<rparr>])
   \<and> snd (deduplicateCitations [cited_once] [cite [''u1''] (Some 0)]) \<noteq> [cited_once]"
  by code_simp

theorem rededuplication_of_disjoint_records_witness:
  "set (uris_of (already_deduplicated ! 0)) \<inter> set (uris_of (already_deduplicated ! 1)) = {}
   \<and> map c_itemData already_deduplicated = [Some 0, Some 1]
   \<and> length [cited_once, untitled_once] = 2
   \<and> fst (deduplicateCitations [cited_once, untitled_once] already_deduplicated) =
       [\<lparr>r_itemData = Some 0, r_uris = [''u1''], r_count = 1, r_indices = [0]\<rparr>,
        \<lparr>r_itemData = Some 1, r_uris = [], r_count = 1, r_indices = [1]\<rparr>]
   \<and> snd (deduplicateCitations [cited_once, untitled_once] already_deduplicated) ! 0 =
       addCiteCountToItem cited_once 1
   \<and> snd (deduplicateCitations [cited_once, untitled_once] already_deduplicated) ! 1 = untitled_once"
proof -
  let ?cs = already_deduplicated
  let ?st = "[cited_once, untitled_once]"
  have len: "length ?cs = 2" by (simp add: already_deduplicated_def)
  have two: "i < 2 \<longleftrightarrow> i = 0 \<or> i = 1" for i :: nat by auto
  have up: "[0..<2] = [0, 1]" by (simp add: upt_rec)
  have u: "uris_of (?cs ! 0) = [''u1'']" "uris_of (?cs ! 1) = []"
    and c: "c_itemData (?cs ! 0) = Some 0" "c_itemData (?cs ! 1) = Some 1"
    by (simp_all add: already_deduplicated_def cite_def uris_of_def)
  have h1: "\<forall>i < length ?cs. \<forall>j < length ?cs. i \<noteq> j \<longrightarrow>
        set (uris_of (?cs ! i)) \<inter> set (uris_of (?cs ! j)) = {}"
    using u by (auto simp: len two)
  have h2: "\<forall>i < length ?cs. \<exists>a < length ?st. c_itemData (?cs ! i) = Some a"
    using c by (auto simp: len two)
  have h3: "distinct (map c_itemData ?cs)"
    by (simp add: already_deduplicated_def cite_def)
  from rededuplication_of_disjoint_records [of ?cs ?st] h1 h2 h3
  have r: "fst (deduplicateCitations ?st ?cs) =
     map (\<lambda>i. \<lparr>r_itemData = c_itemData (?cs ! i), r_uris = uris_of (?cs ! i),
                r_count = 1, r_indices = [i]\<rparr>) [0..<length ?cs]"
    and s: "\<And>i a. i < length ?cs \<Longrightarrow> c_itemData (?cs ! i) = Some a \<Longrightarrow>
        snd (deduplicateCitations ?st ?cs) ! a =
          (if uris_of (?cs ! i) = [] then ?st ! a else addCiteCountToItem (?st ! a) 1)"
    by blast+
  from s [of 0 0] s [of 1 1] r u c show ?thesis
    by (simp add: len up) (simp add: already_deduplicated_def cite_def)
qed

section \<open>The annotation is written to the shared records\<close>

lemma itemData_refs_simps [simp]:
  "itemData_refs [] = []"
  "itemData_refs (c # cs) = (case c_itemData c of None \<Rightarrow> [] | Some a \<Rightarrow> [a]) @ itemData_refs cs"
  "itemData_refs (xs @ ys) = itemData_refs xs @ itemData_refs ys"
  by (simp_all add: itemData_refs_def)

lemma upt_join: "a \<le> b \<Longrightarrow> b \<le> c \<Longrightarrow> [a..<b] @ [b..<c] = [a..<c]"
  by (metis le_add_diff_inverse upt_add_eq_append)

lemma push_items_refs:
  "push_items st field fi ci items = (cs, st') \<Longrightarrow>
   length st \<le> length st' \<and> itemData_refs cs = [length st..<length st']"
proof (induction st field fi ci items arbitrary: cs st' rule: push_items.induct)
  case (1 st field fieldIndex citeIndex)
  then show ?case by simp
next
  case (2 st field fieldIndex citeIndex items)
  then show ?case by simp
next
  case (3 st field fieldIndex citeIndex cite items)
  obtain ref st1 where a: "alloc_itemData st (p_itemData cite) = (ref, st1)"
    by (cases "alloc_itemData st (p_itemData cite)")
  obtain rest st2 where p: "push_items st1 field fieldIndex (Suc citeIndex) items = (rest, st2)"
    by (cases "push_items st1 field fieldIndex (Suc citeIndex) items")
  from "3.IH" [OF a [symmetric] refl p]
  have ih: "length st1 \<le> length st2" "itemData_refs rest = [length st1..<length st2]" by simp_all
  from "3.prems" a p have cs: "cs = \<lparr>c_uris = p_uris cite, c_itemData = ref, c_fieldIndex = fieldIndex,
      c_citeIndex = citeIndex, c_originalField = field\<rparr> # rest" and st': "st' = st2"
    by simp_all
  show ?case
  proof (cases "p_itemData cite")
    case None
    with a have "ref = None" "st1 = st" by (simp_all add: alloc_itemData_def)
    with ih cs st' show ?thesis by simp
  next
    case (Some obj)
    with a have r: "ref = Some (length st)" "length st1 = Suc (length st)"
      by (auto simp: alloc_itemData_def)
    with ih cs st' show ?thesis by (simp add: upt_conv_Cons)
  qed
qed

lemma parseField_refs:
  "parseField JSON_parse st field i = (cs, st') \<Longrightarrow>
   length st \<le> length st' \<and> itemData_refs cs = [length st..<length st']"
  by (auto simp: parseField_def parseField_try_def Let_def
      split: option.splits payload.splits if_splits dest: push_items_refs)

lemma parseFields_from_refs:
  "parseFields_from JSON_parse st i fs = (cs, st') \<Longrightarrow>
   length st \<le> length st' \<and> itemData_refs cs = [length st..<length st']"
proof (induction fs arbitrary: st i cs st')
  case Nil
  then show ?case by simp
next
  case (Cons f fs)
  obtain c1 st1 where f: "parseField JSON_parse st f i = (c1, st1)"
    by (cases "parseField JSON_parse st f i")
  obtain c2 st2 where r: "parseFields_from JSON_parse st1 (Suc i) fs = (c2, st2)"
    by (cases "parseFields_from JSON_parse st1 (Suc i) fs")
  from Cons.prems f r have cs: "cs = c1 @ c2" "st' = st2" by simp_all
  from parseField_refs [OF f] Cons.IH [OF r] cs show ?case
    by (simp add: upt_join)
qed

lemma ref_in_refs:
  "i < length cs \<Longrightarrow> c_itemData (cs ! i) = Some a \<Longrightarrow> a \<in> set (itemData_refs cs)"
  by (induction cs arbitrary: i) (auto simp: nth_Cons split: nat.splits)

lemma refs_unique:
  "distinct (itemData_refs cs) \<Longrightarrow> i < length cs \<Longrightarrow> j < length cs \<Longrightarrow>
   c_itemData (cs ! i) = Some a \<Longrightarrow> c_itemData (cs ! j) = Some a \<Longrightarrow> i = j"
proof (induction cs arbitrary: i j)
  case Nil
  then show ?case by simp
next
  case (Cons c cs)
  show ?case
  proof (cases i)
    case i0: 0
    show ?thesis
    proof (cases j)
      case 0
      with i0 show ?thesis by simp
    next
      case (Suc j')
      with Cons.prems have "a \<in> set (itemData_refs cs)" by (auto intro: ref_in_refs)
      with Cons.prems i0 show ?thesis by auto
    qed
  next
    case (Suc i')
    show ?thesis
    proof (cases j)
      case 0
      from Suc Cons.prems have "a \<in> set (itemData_refs cs)" by (auto intro: ref_in_refs)
      with Cons.prems 0 show ?thesis by auto
    next
      case j: (Suc j')
      from Cons.prems have "distinct (itemData_refs cs)" by simp
      from Cons.IH [OF this, of i' j'] Cons.prems Suc j show ?thesis by simp
    qed
  qed
qed

lemma deduplicateCitations_store:
  "snd (deduplicateCitations st cs) =
     foldl (annotate (normalizeUris (deduplicationArray cs))) st
       (filter (is_head (normalizeUris (deduplicationArray cs))) [0..<length cs])"
  by (cases "cs = []")
    (simp_all add: deduplicateCitations_def Let_def split: prod.splits
      add: performDeduplication_char normalizeUris_closed normalized_well_indexed)

lemma dedup_result_store:
  assumes refs: "itemData_refs cs = [lo..<length st]"
    and d: "d \<in> set (fst (deduplicateCitations st cs))" and a: "r_itemData d = Some a"
  shows "hd (r_indices d) < length cs \<and> c_itemData (cs ! hd (r_indices d)) = Some a
       \<and> a < length (snd (deduplicateCitations st cs))
       \<and> snd (deduplicateCitations st cs) ! a =
           (if r_uris d = [] then st ! a else addCiteCountToItem (st ! a) (r_count d))"
proof -
  let ?arr = "normalizeUris (deduplicationArray cs)"
  let ?n = "length cs"
  let ?heads = "filter (is_head ?arr) [0..<?n]"
  from d obtain e where e: "e \<in> set (clusters cs st)"
    "d = \<lparr>r_itemData = item e, r_uris = uris e, r_count = count e,
          r_indices = (case indices e of Some l \<Rightarrow> l | None \<Rightarrow> [index e])\<rparr>"
    by (auto simp: deduplicateCitations_clusters)
  from e(1) obtain k where k: "k < ?n" "kept ?arr k" "e = final_entry ?arr k"
    by (auto simp: clusters_char)
  have kl: "k < length ?arr" using k(1) by simp
  have it: "c_itemData (cs ! k) = Some a"
    using a e(2) k by (simp add: normalized_fields)
  have hdk: "hd (r_indices d) = k"
  proof (cases "is_head ?arr k")
    case True
    with e(2) k hd_cluster_of [OF kl True] show ?thesis by (simp add: final_entry_head)
  next
    case False
    with e(2) k show ?thesis by (simp add: final_entry_def normalized_fields)
  qed
  have dist: "distinct (itemData_refs cs)" by (simp add: refs)
  have uniq: "k' = k" if "k' < ?n" "item (?arr ! k') = Some a" for k'
    using refs_unique [OF dist that(1) k(1) _ it] that by (simp add: normalized_fields)
  from ref_in_refs [OF k(1) it] refs have al: "a < length st" by simp
  have store: "snd (deduplicateCitations st cs) ! a =
      (if r_uris d = [] then st ! a else addCiteCountToItem (st ! a) (r_count d))"
  proof (cases "is_head ?arr k")
    case True
    then have ne: "r_uris d \<noteq> []" using e(2) k by (simp add: is_head_def)
    have cnt: "r_count d = length (cluster_of ?arr k)"
      using True e(2) k by (simp add: final_entry_head)
    have "foldl (annotate ?arr) st ?heads ! a = addCiteCountToItem (st ! a) (length (cluster_of ?arr k))"
    proof (rule foldl_annotate_written)
      show "distinct ?heads" by simp
      show "k \<in> set ?heads" using k(1) True by simp
      show "item (?arr ! k) = Some a" using it k(1) by (simp add: normalized_fields)
      show "a < length st" by (rule al)
      show "\<forall>k' \<in> set ?heads. item (?arr ! k') = Some a \<longrightarrow> k' = k" using uniq by simp
    qed
    with ne cnt show ?thesis by (simp add: deduplicateCitations_store)
  next
    case False
    with k(2) have emp: "uris (?arr ! k) = []" by (simp add: kept_def)
    then have "r_uris d = []" using e(2) k by simp
    moreover have "\<forall>k' \<in> set ?heads. item (?arr ! k') \<noteq> Some a"
      using uniq False by auto
    ultimately show ?thesis
      by (simp add: deduplicateCitations_store foldl_annotate_untouched)
  qed
  from hdk k(1) it al store show ?thesis
    by (simp add: deduplicateCitations_store)
qed

text \<open>
  C10. \<open>deduplicateCitations\<close> writes into the store that the entries refer to. For every
  record reference that \<open>processFields\<close> returns in \<open>deduplicatedCitations\<close>, the entry of
  \<open>rawCitations\<close> at the cluster's first index holds the same reference, and after the run
  the object at that reference is the parsed object with \<open>Times cited: N\<close> written in front of
  its note, \<open>N\<close> being the cluster's count (unchanged when the entry has no identifiers): so
  the raw entry, and any other holder of the reference, reads the annotated record.
\<close>

theorem annotation_written_to_shared_records:
  "processFields JSON_parse st fieldList = (r, st2)
   \<and> res_deduplicatedCitations r = Some ds \<and> d \<in> set ds \<and> r_itemData d = Some a \<longrightarrow>
   (\<exists>raw. res_rawCitations r = Some raw
       \<and> hd (r_indices d) < length raw \<and> c_itemData (raw ! hd (r_indices d)) = Some a)
   \<and> a < length st2
   \<and> st2 ! a =
       (if r_uris d = [] then snd (parseFields JSON_parse st fieldList) ! a
        else addCiteCountToItem (snd (parseFields JSON_parse st fieldList) ! a) (r_count d))"
proof (intro impI)
  assume h: "processFields JSON_parse st fieldList = (r, st2)
   \<and> res_deduplicatedCitations r = Some ds \<and> d \<in> set ds \<and> r_itemData d = Some a"
  obtain parsed st1 where p: "parseFields JSON_parse st fieldList = (parsed, st1)"
    by (cases "parseFields JSON_parse st fieldList")
  obtain ds' st2' where q: "deduplicateCitations st1 parsed = (ds', st2')"
    by (cases "deduplicateCitations st1 parsed")
  from h p have ne: "parsed \<noteq> []"
    by (auto simp: processFields_def Let_def)
  with h p q have r: "res_rawCitations r = Some parsed" "ds = ds'" "st2 = st2'"
    by (auto simp: processFields_def Let_def)
  from p have "itemData_refs parsed = [length st..<length st1]"
    using parseFields_from_refs [of JSON_parse st 0 fieldList parsed st1]
    by (simp add: parseFields_def)
  moreover from h r q have "d \<in> set (fst (deduplicateCitations st1 parsed))" by simp
  moreover from h have "r_itemData d = Some a" by simp
  ultimately have "hd (r_indices d) < length parsed \<and> c_itemData (parsed ! hd (r_indices d)) = Some a
       \<and> a < length (snd (deduplicateCitations st1 parsed))
       \<and> snd (deduplicateCitations st1 parsed) ! a =
           (if r_uris d = [] then st1 ! a else addCiteCountToItem (st1 ! a) (r_count d))"
    by (rule dedup_result_store)
  with r q p show "(\<exists>raw. res_rawCitations r = Some raw
       \<and> hd (r_indices d) < length raw \<and> c_itemData (raw ! hd (r_indices d)) = Some a)
   \<and> a < length st2
   \<and> st2 ! a =
       (if r_uris d = [] then snd (parseFields JSON_parse st fieldList) ! a
        else addCiteCountToItem (snd (parseFields JSON_parse st fieldList) ! a) (r_count d))"
    by simp
qed

lemma titled_parseFields:
  "parseFields titled_parse [] [titled_field, titled_field] =
     ([\<lparr>c_uris = Some [''u1''], c_itemData = Some 0, c_fieldIndex = 0, c_citeIndex = 0,
        c_originalField = titled_field\<rparr>,
       \<lparr>c_uris = Some [''u1''], c_itemData = Some 1, c_fieldIndex = 1, c_citeIndex = 0,
        c_originalField = titled_field\<rparr>],
      [item_X, item_X])"
  by code_simp

lemma titled_processFields:
  "processFields titled_parse [] [titled_field, titled_field] =
     (\<lparr>res_citations = [0],
       res_statistics = \<lparr>totalFields = 2, validCitations = 2, duplicatesRemoved = 1,
                         citesWithoutMetadata = 0\<rparr>,
       res_isEmpty = False,
       res_rawCitations = Some
         [\<lparr>c_uris = Some [''u1''], c_itemData = Some 0, c_fieldIndex = 0, c_citeIndex = 0,
            c_originalField = titled_field\<rparr>,
          \<lparr>c_uris = Some [''u1''], c_itemData = Some 1, c_fieldIndex = 1, c_citeIndex = 0,
            c_originalField = titled_field\<rparr>],
       res_deduplicatedCitations = Some
         [\<lparr>r_itemData = Some 0, r_uris = [''u1''], r_count = 2, r_indices = [0, 1]\<rparr>]\<rparr>,
      [\<lparr>title = Some ''X'', author = None, note_field = Some ''Times cited: 2'', other = []\<rparr>,
       item_X])"
  by code_simp

theorem annotation_written_to_shared_records_witness:
  "snd (processFields titled_parse [] [titled_field, titled_field]) ! 0
     = \<lparr>title = Some ''X'', author = None, note_field = Some ''Times cited: 2'', other = []\<rparr>
   \<and> res_deduplicatedCitations (fst (processFields titled_parse [] [titled_field, titled_field]))
     = Some [\<lparr>r_itemData = Some 0, r_uris = [''u1''], r_count = 2, r_indices = [0, 1]\<rparr>]
   \<and> snd (processFields titled_parse [] [titled_field, titled_field]) ! 0
     = addCiteCountToItem (snd (parseFields titled_parse [] [titled_field, titled_field]) ! 0) 2"
  using annotation_written_to_shared_records [of titled_parse "[]" "[titled_field, titled_field]"
      "fst (processFields titled_parse [] [titled_field, titled_field])"
      "snd (processFields titled_parse [] [titled_field, titled_field])"
      "[\<lparr>r_itemData = Some 0, r_uris = [''u1''], r_count = 2, r_indices = [0, 1]\<rparr>]"
      "\<lparr>r_itemData = Some 0, r_uris = [''u1''], r_count = 2, r_indices = [0, 1]\<rparr>" 0]
  by (simp add: titled_processFields)

section \<open>The table of counts and the fallback rendering\<close>

lemma strip_prefix_Some: "strip_prefix p s = Some r \<Longrightarrow> s = p @ r"
  by (induction p s rule: strip_prefix.induct) (auto split: if_splits)

lemma strip_prefix_append [simp]: "strip_prefix p (p @ r) = Some r"
  by (induction p) simp_all

lemma set_insert_desc [simp]: "set (insert_desc x ys) = insert x (set ys)"
  by (induction ys) auto

lemma sorted_insert_desc:
  "sorted_wrt (\<lambda>a b. fst b \<le> fst a) ys \<Longrightarrow> sorted_wrt (\<lambda>a b. fst b \<le> fst a) (insert_desc x ys)"
  by (induction ys) (auto intro: order_trans)

lemma sorted_sort_desc: "sorted_wrt (\<lambda>a b. fst b \<le> fst a) (sort_desc xs)"
  unfolding sort_desc_def by (induction xs) (simp_all add: sorted_insert_desc)

lemma filter_insert_desc:
  "sorted_wrt (\<lambda>a b. fst b \<le> fst a) ys \<Longrightarrow>
   filter P (insert_desc x ys) = (if P x then insert_desc x (filter P ys) else filter P ys)"
proof (induction ys)
  case Nil
  then show ?case by simp
next
  case (Cons y ys)
  show ?case
  proof (cases "fst y \<le> fst x")
    case False
    with Cons show ?thesis by simp
  next
    case True
    have "insert_desc x (filter P (y # ys)) = x # filter P (y # ys)"
    proof (cases "filter P (y # ys)")
      case Nil
      then show ?thesis by simp
    next
      case (Cons z zs)
      then have "z \<in> set (filter P (y # ys))" by simp
      then have "z \<in> set (y # ys)" by (simp only: set_filter) blast
      then have "z = y \<or> z \<in> set ys" by simp
      with Cons.prems True have "fst z \<le> fst x" by (auto intro: order_trans)
      with Cons show ?thesis by simp
    qed
    with True show ?thesis by simp
  qed
qed

lemma filter_sort_desc: "filter P (sort_desc xs) = sort_desc (filter P xs)"
proof (induction xs)
  case Nil
  then show ?case by (simp add: sort_desc_def)
next
  case (Cons x xs)
  have "sorted_wrt (\<lambda>a b. fst b \<le> fst a) (foldr insert_desc xs [])"
    using sorted_sort_desc [of xs] by (simp add: sort_desc_def)
  with Cons show ?case by (simp add: sort_desc_def filter_insert_desc)
qed

lemma marker_here_Some:
  assumes "marker_here s = Some (digits, after)"
  shows "s = ''['' @ digits @ '' citations] '' @ after \<and> digits \<noteq> [] \<and> (\<forall>c \<in> set digits. is_digit c)"
proof -
  from assms obtain r where r: "s = CHR ''['' # r" "takeWhile is_digit r \<noteq> []"
    "strip_prefix '' citations] '' (dropWhile is_digit r) = Some after" "digits = takeWhile is_digit r"
    by (auto simp: marker_here_def split: list.splits if_splits option.splits)
  from strip_prefix_Some [OF r(3)] have "dropWhile is_digit r = '' citations] '' @ after" .
  then have "r = takeWhile is_digit r @ '' citations] '' @ after"
    using takeWhile_dropWhile_id [of is_digit r] by simp
  with r show ?thesis by (auto dest: set_takeWhileD)
qed

lemma find_marker_Some:
  "find_marker line = Some (before, digits, after) \<Longrightarrow>
   line = before @ ''['' @ digits @ '' citations] '' @ after \<and> digits \<noteq> []
   \<and> (\<forall>c \<in> set digits. is_digit c)"
proof (induction line arbitrary: before)
  case Nil
  then show ?case by simp
next
  case (Cons c cs)
  show ?case
  proof (cases "marker_here (c # cs)")
    case (Some m)
    with Cons.prems have "m = (digits, after)" "before = []" by (auto split: prod.splits)
    with Some marker_here_Some [of "c # cs" digits after] show ?thesis by simp
  next
    case None
    with Cons.prems obtain b where b: "find_marker cs = Some (b, digits, after)" "before = c # b"
      by (auto split: option.splits)
    from Cons.IH [OF b(1)] b(2) show ?thesis by simp
  qed
qed

lemma takeWhile_digits:
  "\<forall>c \<in> set digits. is_digit c \<Longrightarrow> \<not> is_digit x \<Longrightarrow>
   takeWhile is_digit (digits @ x # rest) = digits \<and> dropWhile is_digit (digits @ x # rest) = x # rest"
  by (induction digits) simp_all

lemma marker_here_marker:
  assumes "digits \<noteq> []" "\<forall>c \<in> set digits. is_digit c"
  shows "marker_here (''['' @ digits @ '' citations] '' @ after) = Some (digits, after)"
proof -
  have "\<not> is_digit CHR '' ''" by (simp add: is_digit_def)
  with assms(2) have "takeWhile is_digit (digits @ CHR '' '' # ''citations] '' @ after) = digits
      \<and> dropWhile is_digit (digits @ CHR '' '' # ''citations] '' @ after) = CHR '' '' # ''citations] '' @ after"
    by (rule takeWhile_digits)
  with assms(1) show ?thesis by (simp add: marker_here_def)
qed

lemma strip_prefix_within:
  assumes "strip_prefix p (y @ x # rest) = Some a" "x \<notin> set p"
  shows "strip_prefix p y \<noteq> None"
  using assms
proof (induction p y arbitrary: a rule: strip_prefix.induct)
  case (1 s)
  then show ?case by simp
next
  case (2 p ps)
  then show ?case by (auto split: if_splits)
next
  case (3 p ps c cs)
  then show ?case by (auto split: if_splits)
qed

lemma marker_here_within:
  assumes "marker_here (s @ CHR ''['' # rest) = Some m" "s \<noteq> []"
  shows "marker_here s \<noteq> None"
proof -
  from assms(2) obtain c r where s: "s = c # r" by (cases s) auto
  with assms(1) obtain after where c: "c = CHR ''[''" and t: "takeWhile is_digit (r @ CHR ''['' # rest) \<noteq> []"
    and p: "strip_prefix '' citations] '' (dropWhile is_digit (r @ CHR ''['' # rest)) = Some after"
    by (auto simp: marker_here_def split: if_splits option.splits)
  have nd: "\<not> is_digit CHR ''[''" by (simp add: is_digit_def)
  have "\<exists>x \<in> set r. \<not> is_digit x"
  proof (rule ccontr)
    assume "\<not> (\<exists>x \<in> set r. \<not> is_digit x)"
    then have "\<forall>x \<in> set r. is_digit x" by blast
    with nd have "dropWhile is_digit (r @ CHR ''['' # rest) = CHR ''['' # rest"
      using takeWhile_digits [of r "CHR ''[''" rest] by blast
    with p show False by simp
  qed
  then obtain x where x: "x \<in> set r" "\<not> is_digit x" by blast
  have tw: "takeWhile is_digit (r @ CHR ''['' # rest) = takeWhile is_digit r"
    by (rule takeWhile_append1 [of x r is_digit, OF x])
  have dw: "dropWhile is_digit (r @ CHR ''['' # rest) = dropWhile is_digit r @ CHR ''['' # rest"
    by (rule dropWhile_append1 [of x r is_digit, OF x])
  from p dw have "strip_prefix '' citations] '' (dropWhile is_digit r) \<noteq> None"
    by (intro strip_prefix_within [of _ _ "CHR ''[''" rest after]) simp_all
  with c t tw s show ?thesis by (auto simp: marker_here_def)
qed

lemma find_marker_None_here: "find_marker s = None \<Longrightarrow> s \<noteq> [] \<Longrightarrow> marker_here s = None"
  by (cases s) (auto split: option.splits)

lemma find_marker_first:
  assumes "find_marker before = None" "digits \<noteq> []" "\<forall>c \<in> set digits. is_digit c"
  shows "find_marker (before @ ''['' @ digits @ '' citations] '' @ after) = Some (before, digits, after)"
  using assms(1)
proof (induction before)
  case Nil
  from marker_here_marker [OF assms(2,3), of after] show ?case by simp
next
  case (Cons c bs)
  from Cons.prems have h: "marker_here (c # bs) = None" and f: "find_marker bs = None"
    by (auto split: option.splits)
  have "marker_here ((c # bs) @ CHR ''['' # digits @ '' citations] '' @ after) = None"
  proof (rule ccontr)
    assume "marker_here ((c # bs) @ CHR ''['' # digits @ '' citations] '' @ after) \<noteq> None"
    then obtain m where "marker_here ((c # bs) @ CHR ''['' # digits @ '' citations] '' @ after) = Some m"
      by blast
    from marker_here_within [OF this] h show False by simp
  qed
  with Cons.IH [OF f] show ?case by simp
qed

lemma strip_prefix_more: "strip_prefix p z = Some a \<Longrightarrow> strip_prefix p (z @ y) = Some (a @ y)"
  by (induction p z rule: strip_prefix.induct) (auto split: if_splits)

lemma marker_here_more:
  assumes "marker_here s = Some (digits, after)"
  shows "marker_here (s @ y) = Some (digits, after @ y)"
proof -
  from assms obtain r where s: "s = CHR ''['' # r" and t: "takeWhile is_digit r \<noteq> []"
    and p: "strip_prefix '' citations] '' (dropWhile is_digit r) = Some after"
    and d: "digits = takeWhile is_digit r"
    by (auto simp: marker_here_def split: list.splits if_splits option.splits)
  have "dropWhile is_digit r \<noteq> []"
  proof
    assume "dropWhile is_digit r = []"
    with p show False by simp
  qed
  then have "\<not> (\<forall>x \<in> set r. is_digit x)" by (simp add: dropWhile_eq_Nil_conv)
  then obtain x where x: "x \<in> set r" "\<not> is_digit x" by blast
  have "takeWhile is_digit (r @ y) = takeWhile is_digit r"
    by (rule takeWhile_append1 [of x r is_digit, OF x])
  moreover have "dropWhile is_digit (r @ y) = dropWhile is_digit r @ y"
    by (rule dropWhile_append1 [of x r is_digit, OF x])
  ultimately show ?thesis
    using s t d strip_prefix_more [OF p, of y] by (simp add: marker_here_def)
qed

lemma find_marker_more: "find_marker s = Some m \<Longrightarrow> find_marker (s @ y) \<noteq> None"
proof (induction s arbitrary: m)
  case Nil
  then show ?case by simp
next
  case (Cons c cs)
  show ?case
  proof (cases "marker_here (c # cs)")
    case (Some h)
    obtain d a where "h = (d, a)" by (cases h)
    with Some marker_here_more [of "c # cs" d a y] show ?thesis by simp
  next
    case None
    with Cons.prems obtain m' where "find_marker cs = Some m'" by (auto split: option.splits)
    from Cons.IH [OF this] show ?thesis by (auto split: option.splits)
  qed
qed

lemma find_marker_None:
  "find_marker line = None \<longleftrightarrow>
   \<not> (\<exists>before digits after. digits \<noteq> [] \<and> (\<forall>c \<in> set digits. is_digit c)
        \<and> line = before @ ''['' @ digits @ '' citations] '' @ after)"
proof
  assume n: "find_marker line = None"
  show "\<not> (\<exists>before digits after. digits \<noteq> [] \<and> (\<forall>c \<in> set digits. is_digit c)
        \<and> line = before @ ''['' @ digits @ '' citations] '' @ after)"
  proof
    assume "\<exists>before digits after. digits \<noteq> [] \<and> (\<forall>c \<in> set digits. is_digit c)
        \<and> line = before @ ''['' @ digits @ '' citations] '' @ after"
    then obtain before digits after where d: "digits \<noteq> []" "\<forall>c \<in> set digits. is_digit c"
      and l: "line = before @ ''['' @ digits @ '' citations] '' @ after"
      by blast
    have "find_marker before = None"
    proof (cases "find_marker before")
      case (Some m)
      from find_marker_more [OF this, of "''['' @ digits @ '' citations] '' @ after"] n l
      show ?thesis by simp
    qed simp
    from find_marker_first [OF this d, of after] n l show False by simp
  qed
next
  assume a: "\<not> (\<exists>before digits after. digits \<noteq> [] \<and> (\<forall>c \<in> set digits. is_digit c)
        \<and> line = before @ ''['' @ digits @ '' citations] '' @ after)"
  show "find_marker line = None"
  proof (cases "find_marker line")
    case (Some m)
    obtain b d r where "m = (b, d, r)" by (cases m)
    with Some find_marker_Some [of line b d r] a show ?thesis by blast
  qed simp
qed

lemma marker_line_not_blank:
  assumes "find_marker line = Some (before, digits, after)"
  shows "trim line \<noteq> []"
proof -
  from find_marker_Some [OF assms] have "CHR ''['' \<in> set line" by auto
  moreover have "\<not> is_space (CHR ''['')" by (simp add: is_space_def)
  ultimately show ?thesis by (auto simp: trim_empty)
qed

lemma starts_with_zero_digits:
  assumes "digits \<noteq> []" "\<forall>c \<in> set digits. is_digit c"
  shows "starts_with_zero (digits @ [tab] @ rest) = (digits = ''0'')"
proof (cases digits)
  case Nil
  with assms show ?thesis by simp
next
  case (Cons d ds)
  show ?thesis
  proof (cases ds)
    case Nil
    with Cons show ?thesis by (auto simp: starts_with_zero_def)
  next
    case c2: (Cons e es)
    with Cons assms(2) have "is_digit e" by simp
    then have "e \<noteq> tab" by (auto simp: is_digit_def tab_def)
    with Cons c2 show ?thesis by (auto simp: starts_with_zero_def)
  qed
qed

text \<open>
  The table is the header \<open>cite_count\<close>, tab, \<open>reference\<close>, line feed, followed by the
  kept rows joined by line feeds, in descending order of their counts. A line whose first
  marker \<open>[N citations] \<close> comes after the text \<open>before\<close> gives the row \<open>N\<close>, tab, the
  line without that marker, with count \<open>parseInt N\<close>; a line without marker that is not
  blank gives count 0 and the row \<open>0\<close>, tab, the line; a blank line gives no row. A row is
  dropped when it begins with \<open>0\<close> and a tab: that is every row of a line without marker,
  and the row of a marker exactly when its digits are the text \<open>0\<close>.
\<close>

lemma count_table_rows:
  "count_table parseInt bibliography =
     ''cite_count'' @ [tab] @ ''reference'' @ [nl]
     @ join_lines (map snd (sort_desc (filter (\<lambda>row. \<not> starts_with_zero (snd row))
         (List.map_filter (format_line parseInt) (split_lines bibliography)))))
   \<and> sorted_wrt (\<lambda>a b. fst b \<le> fst a)
       (sort_desc (filter (\<lambda>row. \<not> starts_with_zero (snd row))
         (List.map_filter (format_line parseInt) (split_lines bibliography))))
   \<and> (digits \<noteq> [] \<and> (\<forall>c \<in> set digits. is_digit c)
        \<and> \<not> (\<exists>b d a. d \<noteq> [] \<and> (\<forall>c \<in> set d. is_digit c) \<and> before = b @ ''['' @ d @ '' citations] '' @ a) \<longrightarrow>
        format_line parseInt (before @ ''['' @ digits @ '' citations] '' @ after)
          = Some (parseInt digits, digits @ [tab] @ before @ after)
        \<and> starts_with_zero (digits @ [tab] @ before @ after) = (digits = ''0''))
   \<and> (\<not> (\<exists>b d a. d \<noteq> [] \<and> (\<forall>c \<in> set d. is_digit c) \<and> line = b @ ''['' @ d @ '' citations] '' @ a)
        \<and> trim line \<noteq> [] \<longrightarrow>
        format_line parseInt line = Some (0, ''0'' @ [tab] @ line)
        \<and> starts_with_zero (''0'' @ [tab] @ line))
   \<and> (trim line = [] \<longrightarrow> format_line parseInt line = None)
   \<and> (Cite env = Some render
        \<and> render (JSON_stringify env (addCountsToTitle citations)) ''bibliography'' None = Some bibliography \<longrightarrow>
        formatBibliographyWithCounts env parseInt citations = Inr (count_table parseInt bibliography))"
proof (intro conjI impI)
  let ?rows = "List.map_filter (format_line parseInt) (split_lines bibliography)"
  have "filter (\<lambda>l. \<not> starts_with_zero l) (map snd (sort_desc ?rows))
      = map snd (filter (\<lambda>row. \<not> starts_with_zero (snd row)) (sort_desc ?rows))"
    by (simp add: filter_map comp_def)
  then show "count_table parseInt bibliography =
     ''cite_count'' @ [tab] @ ''reference'' @ [nl]
     @ join_lines (map snd (sort_desc (filter (\<lambda>row. \<not> starts_with_zero (snd row)) ?rows)))"
    by (simp add: count_table_def Let_def filter_sort_desc)
  show "sorted_wrt (\<lambda>a b. fst b \<le> fst a)
       (sort_desc (filter (\<lambda>row. \<not> starts_with_zero (snd row)) ?rows))"
    by (rule sorted_sort_desc)
next
  assume a: "digits \<noteq> [] \<and> (\<forall>c \<in> set digits. is_digit c)
        \<and> \<not> (\<exists>b d a. d \<noteq> [] \<and> (\<forall>c \<in> set d. is_digit c) \<and> before = b @ ''['' @ d @ '' citations] '' @ a)"
  then have "find_marker before = None" by (simp add: find_marker_None)
  with a have m: "find_marker (before @ ''['' @ digits @ '' citations] '' @ after) = Some (before, digits, after)"
    by (intro find_marker_first) simp_all
  from m marker_line_not_blank [OF m]
  show "format_line parseInt (before @ ''['' @ digits @ '' citations] '' @ after)
      = Some (parseInt digits, digits @ [tab] @ before @ after)"
    by (simp add: format_line_def)
  from a show "starts_with_zero (digits @ [tab] @ before @ after) = (digits = ''0'')"
    by (intro starts_with_zero_digits) simp_all
next
  assume a: "\<not> (\<exists>b d a. d \<noteq> [] \<and> (\<forall>c \<in> set d. is_digit c) \<and> line = b @ ''['' @ d @ '' citations] '' @ a)
        \<and> trim line \<noteq> []"
  then have "find_marker line = None" by (simp add: find_marker_None)
  with a show "format_line parseInt line = Some (0, ''0'' @ [tab] @ line)"
    by (simp add: format_line_def)
  show "starts_with_zero (''0'' @ [tab] @ line)"
    by (simp add: starts_with_zero_def)
next
  assume "trim line = []"
  then show "format_line parseInt line = None" by (simp add: format_line_def)
next
  assume "Cite env = Some render
        \<and> render (JSON_stringify env (addCountsToTitle citations)) ''bibliography'' None = Some bibliography"
  then show "formatBibliographyWithCounts env parseInt citations = Inr (count_table parseInt bibliography)"
    by (simp add: formatBibliographyWithCounts_def)
qed

text \<open>
  C8. A record whose note gives its count as \<open>00\<close> gets the title marker
  \<open>[00 citations] \<close>. In the table of a bibliography with the lines of scenario E, such a
  line and a line without marker, the line with the marker \<open>[00 citations] \<close> has the
  count 0, as the line with \<open>[0 citations] \<close> and the line without marker have, but its
  row \<open>00\<close>, tab, line stays in the body while the rows of those two are dropped: the
  rows are dropped by their text, not by their count.
\<close>

theorem count_zero_row_with_leading_zero_kept:
  "addCountsToTitle [cited_00]
     = [\<lparr>title = Some ''[00 citations] C'', author = None,
         note_field = Some ''Times cited: 00'', other = []\<rparr>]
   \<and> format_line parse_decimal ''[0 citations] B, B. (2021).'' = Some (0, ''0'' @ [tab] @ ''B, B. (2021).'')
   \<and> format_line parse_decimal ''[00 citations] C. (2022).'' = Some (0, ''00'' @ [tab] @ ''C. (2022).'')
   \<and> format_line parse_decimal ''D, D. (2023).'' = Some (0, ''0'' @ [tab] @ ''D, D. (2023).'')
   \<and> count_table parse_decimal scenario_E_zeros
       = ''cite_count'' @ [tab] @ ''reference'' @ [nl]
         @ ''3'' @ [tab] @ ''A, A. (2020).'' @ [nl] @ ''00'' @ [tab] @ ''C. (2022).''
   \<and> formatBibliographyWithCounts fixed_renderer parse_decimal [cited_00]
       = Inr (''cite_count'' @ [tab] @ ''reference'' @ [nl]
              @ ''3'' @ [tab] @ ''A, A. (2020).'' @ [nl] @ ''00'' @ [tab] @ ''C. (2022).'')"
  by code_simp

text \<open>Scenario E itself: the row of the first line is kept, the line with count 0 is dropped.\<close>

lemma scenario_E_table:
  "count_table parse_decimal scenario_E
     = ''cite_count'' @ [tab] @ ''reference'' @ [nl] @ ''3'' @ [tab] @ ''A, A. (2020).''"
  by code_simp






end
